theory Spec2Isabelle
  imports Complex_Main "HOL-Library.Log_Nat"
begin

section \<open>Values, listings and the outside world\<close>

text \<open>
  The program is one Express handler (\<open>POST /api/generate\<close>) over four helpers:
  \<open>fetchWithRetry\<close>, \<open>fetchProduct\<close>, \<open>findBestMatch\<close> and the handler's own two
  resolution batches. Everything the handler talks to is outside the repository: the
  generative-text provider, the marketplace (through \<open>axios.get\<close>), the clock, and the
  libraries \<open>node-cache\<close>, \<open>bottleneck\<close> and \<open>string-similarity\<close>. The outside is a
  record of oracles (\<open>env\<close>); what the process remembers between calls is a record
  of state (\<open>world\<close>) that every operation takes and returns.

  JavaScript values that come out of \<open>JSON.parse\<close> are the datatype \<open>jsval\<close>. An
  object is the list of its own properties in enumeration order. A string is the list of
  its code units. Prices and the budget are whole numbers of the currency; the total is
  their exact sum, and the acceptance check computes on the doubles nearest to the total
  and the budget, with the rounding of IEEE 754 at every operation.
\<close>

datatype jsval =
    Undefined
  | Null
  | Bool bool
  | Num rat
  | Str string
  | Arr "jsval list"
  | Obj "(string \<times> jsval) list"

text \<open>Everything the source can throw, as a value.\<close>

datatype error =
    AxiosError "nat option"   \<comment> \<open>a rejected \<open>axios.get\<close>; the status of \<open>error.response\<close>, if any\<close>
  | MaxRetriesReached         \<comment> \<open>\<open>new Error('Max retries reached')\<close>\<close>
  | TypeError                 \<comment> \<open>a property read on \<open>undefined\<close> or \<open>null\<close>\<close>
  | URIError                  \<comment> \<open>\<open>encodeURIComponent\<close> on a lone surrogate\<close>
  | BadArguments              \<comment> \<open>string-similarity's argument check\<close>
  | ParseFailure              \<comment> \<open>\<open>'Failed to parse JSON response from OpenAI'\<close>, or a \<open>SyntaxError\<close>\<close>
  | MissingComponents         \<comment> \<open>\<open>'OpenAI response is missing one or more required components'\<close>\<close>
  | ProviderError             \<comment> \<open>the provider's call rejected\<close>

text \<open>A marketplace result card, and the listing \<open>fetchProduct\<close> projects it to.\<close>

record card =
  title :: jsval                      \<comment> \<open>\<open>card.title\<close>, \<open>Undefined\<close> when the card has none\<close>
  unitPrice :: int
  shopLink :: string
  previewImages :: "string option list option"
    \<comment> \<open>\<open>None\<close>: the card has no \<open>previewImages\<close>; an element is the image's \<open>large\<close>, if any\<close>
  card_rating :: jsval
  reviewsQuantity :: jsval

record listing =
  name :: jsval
  price :: int
  url :: string
  image :: string
  rating :: jsval
  reviewCount :: jsval

record response =
  content_type :: "string option"     \<comment> \<open>\<open>response.headers['content-type']\<close>\<close>
  cards :: "card list option"         \<comment> \<open>\<open>response.data.data.cards\<close>, \<open>None\<close> when the path is not there\<close>

datatype outcome = Resolved response | Rejected "nat option"

text \<open>What the handler sends to the provider: the two prompt templates, by their holes.\<close>

datatype llm_request =
    InitialPrompt string int
      \<comment> \<open>\<open>prompt\<close>, \<open>budget\<close>\<close>
  | AdjustmentPrompt int int "string list" "(string \<times> jsval \<times> int) list"
      \<comment> \<open>\<open>totalPrice\<close>, \<open>budget\<close>, \<open>missingComponents\<close>, \<open>componentsWithPrices\<close>\<close>

text \<open>
  The oracles. \<open>axios_get n u\<close> is what the \<open>n\<close>-th outbound request of the process gets
  for URL \<open>u\<close>, with the time it takes; \<open>chat n r\<close> is what the provider's \<open>n\<close>-th
  invocation returns for request \<open>r\<close>. Times are in milliseconds.
\<close>

record env =
  axios_get :: "nat \<Rightarrow> string \<Rightarrow> nat \<times> outcome"
  chat :: "nat \<Rightarrow> llm_request \<Rightarrow> nat \<times> (error + string)"
  JSON_parse :: "string \<Rightarrow> jsval option"
  encodeURIComponent :: "string \<Rightarrow> string option"
  js_String :: "jsval \<Rightarrow> string"
  compareTwoStrings :: "string \<Rightarrow> string \<Rightarrow> rat"

type_synonym node_cache = "string \<rightharpoonup> (listing list \<times> nat)"

record world =
  now :: nat                          \<comment> \<open>\<open>Date.now()\<close>\<close>
  requests :: nat                     \<comment> \<open>how many \<open>axios.get\<close> calls were issued\<close>
  sleeps :: "nat list"                \<comment> \<open>every back-off delay waited, in order\<close>
  cache :: node_cache                 \<comment> \<open>the process-wide \<open>NodeCache\<close>\<close>
  limiter_ready :: nat                \<comment> \<open>when the process-wide \<open>Bottleneck\<close> admits its next job\<close>
  provider_log :: "llm_request list"  \<comment> \<open>every provider invocation, in order\<close>

section \<open>fetchWithRetry\<close>

text \<open>
  \<^verbatim>\<open>for (let i = 0; i < maxRetries; i++) { try { return await axios.get(..) } catch ..\<close>:
  the loop from counter \<open>i\<close>. A rejection whose response has status 429 sleeps
  \<open>baseDelay * 2^i\<close> and goes round again; any other rejection is rethrown; leaving the
  loop throws \<open>'Max retries reached'\<close>.
\<close>

function fetchWithRetry_loop ::
  "env \<Rightarrow> string \<Rightarrow> nat \<Rightarrow> nat \<Rightarrow> nat \<Rightarrow> world \<Rightarrow> (error + response) \<times> world" where
  "fetchWithRetry_loop e u maxRetries baseDelay i w =
     (if i < maxRetries then
        (let w1 = w\<lparr>now := now w + fst (axios_get e (requests w) u),
                     requests := Suc (requests w)\<rparr>
         in case snd (axios_get e (requests w) u) of
              Resolved r \<Rightarrow> (Inr r, w1)
            | Rejected st \<Rightarrow>
                if st = Some 429 then
                  fetchWithRetry_loop e u maxRetries baseDelay (Suc i)
                    (w1\<lparr>now := now w1 + baseDelay * 2 ^ i,
                        sleeps := sleeps w1 @ [baseDelay * 2 ^ i]\<rparr>)
                else (Inl (AxiosError st), w1))
      else (Inl MaxRetriesReached, w))"
  by pat_completeness auto
termination
  by (relation "measure (\<lambda>(e, u, maxRetries, baseDelay, i, w). maxRetries - i)") auto

declare fetchWithRetry_loop.simps [simp del]

text \<open>The defaults of the source: \<open>maxRetries = 5\<close>, \<open>baseDelay = 5000\<close>.\<close>

definition fetchWithRetry :: "env \<Rightarrow> string \<Rightarrow> world \<Rightarrow> (error + response) \<times> world" where
  "fetchWithRetry e u w = fetchWithRetry_loop e u 5 5000 0 w"

text \<open>An oracle answer that is a throttling response.\<close>

definition throttled :: "env \<Rightarrow> string \<Rightarrow> nat \<Rightarrow> bool" where
  "throttled e u n = (snd (axios_get e n u) = Rejected (Some 429))"


section \<open>The product cache\<close>

text \<open>
  Modelled from the spec: \<open>node-cache\<close> is a dependency, its code is not in the
  repository. The source constructs it with \<open>stdTTL: 3600\<close> (seconds) and calls
  \<open>get\<close> and \<open>set\<close> only. An entry carries the time it expires, \<open>stdTTL\<close> after the
  \<open>set\<close>; a \<open>get\<close> after that time answers \<open>undefined\<close> (\<open>None\<close>) and drops the entry.
\<close>

definition stdTTL :: nat where
  "stdTTL = 3600"

definition cache_get :: "node_cache \<Rightarrow> string \<Rightarrow> nat \<Rightarrow> listing list option \<times> node_cache" where
  "cache_get c k t =
     (case c k of
        None \<Rightarrow> (None, c)
      | Some (v, expires) \<Rightarrow> if expires < t then (None, c(k := None)) else (Some v, c))"

definition cache_set :: "node_cache \<Rightarrow> string \<Rightarrow> listing list \<Rightarrow> nat \<Rightarrow> node_cache" where
  "cache_set c k v t = c(k \<mapsto> (v, t + stdTTL * 1000))"

section \<open>fetchProduct\<close>

text \<open>\<open>String(v)\<close>: a string is itself, anything else is converted by the engine.\<close>

definition toString :: "env \<Rightarrow> jsval \<Rightarrow> string" where
  "toString e v = (case v of Str s \<Rightarrow> s | _ \<Rightarrow> js_String e v)"

text \<open>\<open>s.includes(p)\<close> on strings.\<close>

primrec str_includes :: "string \<Rightarrow> string \<Rightarrow> bool" where
  "str_includes [] p = (p = [])"
| "str_includes (c # cs) p = (take (length p) (c # cs) = p \<or> str_includes cs p)"

definition search_url :: "string \<Rightarrow> string" where
  "search_url query =
     ''https://kaspi.kz/yml/product-view/pl/filters?text='' @ query @
     ''&hint_chips_click=false&page=0&all=false&fl=true&ui=d&q=%3AavailableInZones%3AMagnum_ZONE1&i=-1&c=750000000''"

text \<open>
  The projection of one card. \<open>card.previewImages[0]?.large || ''\<close> throws when the
  card has no \<open>previewImages\<close>; an empty array or an image without \<open>large\<close> gives \<open>''\<close>.
\<close>

definition card_to_product :: "card \<Rightarrow> error + listing" where
  "card_to_product c =
     (case previewImages c of
        None \<Rightarrow> Inl TypeError
      | Some imgs \<Rightarrow>
          Inr \<lparr>name = title c, price = unitPrice c, url = shopLink c,
               image = (case imgs of [] \<Rightarrow> [] | img # _ \<Rightarrow> (case img of None \<Rightarrow> [] | Some l \<Rightarrow> l)),
               rating = card_rating c, reviewCount = reviewsQuantity c\<rparr>)"

fun map_cards :: "card list \<Rightarrow> error + listing list" where
  "map_cards [] = Inr []"
| "map_cards (c # cs) =
     (case card_to_product c of
        Inl err \<Rightarrow> Inl err
      | Inr p \<Rightarrow> (case map_cards cs of Inl err \<Rightarrow> Inl err | Inr ps \<Rightarrow> Inr (p # ps)))"

text \<open>The \<open>try\<close> block of \<open>fetchProduct\<close> (lines 71 to 86).\<close>

definition fetchProduct_try ::
  "env \<Rightarrow> string \<Rightarrow> string \<Rightarrow> world \<Rightarrow> (error + listing list) \<times> world" where
  "fetchProduct_try e cacheKey u w =
     (case fetchWithRetry e u w of
        (Inl err, w1) \<Rightarrow> (Inl err, w1)
      | (Inr r, w1) \<Rightarrow>
          (case content_type r of
             None \<Rightarrow> (Inl TypeError, w1)
           | Some ct \<Rightarrow>
               if str_includes ct ''application/json'' then
                 (case cards r of
                    None \<Rightarrow> (Inl TypeError, w1)
                  | Some cs \<Rightarrow>
                      (case map_cards cs of
                         Inl err \<Rightarrow> (Inl err, w1)
                       | Inr products \<Rightarrow>
                           (Inr products,
                            w1\<lparr>cache := cache_set (cache w1) cacheKey products (now w1)\<rparr>)))
               else (Inr [], w1)))"

text \<open>
  The function that \<open>limiter.wrap\<close> wraps: the cache lookup, the URL, the \<open>try\<close> block and
  its \<open>catch\<close>, which answers \<open>[]\<close>. \<open>encodeURIComponent\<close> stands before the \<open>try\<close>, so
  its \<open>URIError\<close> leaves the function.
\<close>

definition fetchProduct_body :: "env \<Rightarrow> jsval \<Rightarrow> world \<Rightarrow> (error + listing list) \<times> world" where
  "fetchProduct_body e searchTerm w =
     (let cacheKey = ''product:'' @ toString e searchTerm;
          got = cache_get (cache w) cacheKey (now w);
          w1 = w\<lparr>cache := snd got\<rparr>
      in case fst got of
           Some cachedResult \<Rightarrow> (Inr cachedResult, w1)
         | None \<Rightarrow>
             (case encodeURIComponent e (toString e searchTerm) of
                None \<Rightarrow> (Inl URIError, w1)
              | Some query \<Rightarrow>
                  (case fetchProduct_try e cacheKey (search_url query) w1 of
                     (Inl err, w2) \<Rightarrow> (Inr [], w2)
                   | (Inr products, w2) \<Rightarrow> (Inr products, w2))))"

text \<open>
  Modelled from the spec: \<open>bottleneck\<close> is a dependency, its code is not in the
  repository. The process-wide limiter (\<open>minTime: 5000\<close>) starts a job no earlier than
  5000 ms after it started the one before. Jobs of one batch are run one after the other,
  in the order of the array that \<open>Promise.all\<close> receives; the limiter does so as long
  as each job ends within the 5000 ms before it starts the next, which is the case when
  no request is throttled or takes that long.
\<close>

definition fetchProduct :: "env \<Rightarrow> jsval \<Rightarrow> world \<Rightarrow> (error + listing list) \<times> world" where
  "fetchProduct e searchTerm w =
     (let start = max (now w) (limiter_ready w)
      in fetchProduct_body e searchTerm (w\<lparr>now := start, limiter_ready := start + 5000\<rparr>))"

section \<open>findBestMatch\<close>

text \<open>
  Modelled from the spec: \<open>string-similarity\<close> is a dependency, its code is not in the
  repository. Its \<open>findBestMatch(mainString, targetStrings)\<close> rates every target with
  \<open>compareTwoStrings\<close> (an oracle here) and answers the first target whose rating is
  greatest, as \<open>{target, rating}\<close>. It throws \<open>'Bad arguments'\<close> when the main string
  is not a string, when there is no target, and when \<open>targetStrings.find(s => typeof s !==
  'string')\<close> is truthy; when the first target that is not a string is falsy the check
  lets it through and \<open>compareTwoStrings\<close> throws a \<open>TypeError\<close> on it.
\<close>

text \<open>\<open>typeof v === 'string'\<close> with the string, and the truthiness of a value.\<close>

definition as_string :: "jsval \<Rightarrow> string option" where
  "as_string v = (case v of Str s \<Rightarrow> Some s | _ \<Rightarrow> None)"

definition truthy :: "jsval \<Rightarrow> bool" where
  "truthy v =
     (case v of
        Undefined \<Rightarrow> False
      | Null \<Rightarrow> False
      | Bool b \<Rightarrow> b
      | Num n \<Rightarrow> n \<noteq> 0
      | Str s \<Rightarrow> s \<noteq> []
      | Arr xs \<Rightarrow> True
      | Obj kvs \<Rightarrow> True)"

definition ss_bestMatchIndex :: "rat list \<Rightarrow> nat" where
  "ss_bestMatchIndex ratings =
     foldl (\<lambda>best i. if ratings ! best < ratings ! i then i else best) 0 [0..<length ratings]"

definition ss_findBestMatch ::
  "(string \<Rightarrow> string \<Rightarrow> rat) \<Rightarrow> jsval \<Rightarrow> jsval list \<Rightarrow> error + (jsval \<times> rat)" where
  "ss_findBestMatch sim mainString targetStrings =
     (case mainString of
        Str s \<Rightarrow>
          if targetStrings = [] then Inl BadArguments
          else (case those (map as_string targetStrings) of
                  None \<Rightarrow>
                    (case find (\<lambda>t. as_string t = None) targetStrings of
                       None \<Rightarrow> Inl BadArguments
                     | Some t \<Rightarrow> if truthy t then Inl BadArguments else Inl TypeError)
                | Some targets \<Rightarrow>
                    (let ratings = map (sim s) targets;
                         best = ss_bestMatchIndex ratings
                     in Inr (Str (targets ! best), ratings ! best)))
      | _ \<Rightarrow> Inl BadArguments)"

text \<open>\<open>xs.indexOf(x)\<close>, \<open>-1\<close> when \<open>x\<close> is not there; \<open>xs[i] || null\<close>.\<close>

fun indexOf :: "'a list \<Rightarrow> 'a \<Rightarrow> int" where
  "indexOf [] x = -1"
| "indexOf (y # ys) x = (if y = x then 0 else (let i = indexOf ys x in if i < 0 then -1 else i + 1))"

definition at_or_null :: "'a list \<Rightarrow> int \<Rightarrow> 'a option" where
  "at_or_null xs i = (if 0 \<le> i \<and> i < int (length xs) then Some (xs ! nat i) else None)"

definition findBestMatch :: "env \<Rightarrow> jsval \<Rightarrow> listing list \<Rightarrow> error + listing option" where
  "findBestMatch e searchTerm products =
     (if length products = 0 then Inr None
      else (let productNames = map name products
            in case ss_findBestMatch (compareTwoStrings e) searchTerm productNames of
                 Inl err \<Rightarrow> Inl err
               | Inr bestMatch \<Rightarrow>
                   (let bestMatchIndex = indexOf productNames (fst bestMatch)
                    in Inr (at_or_null products bestMatchIndex))))"

section \<open>The handler\<close>

record request =
  prompt :: string
  budget :: int

datatype reply =
    Send string "(string \<times> listing) list"   \<comment> \<open>\<open>res.send({response, products})\<close>\<close>
  | InternalServerError                       \<comment> \<open>\<open>res.status(500).json(..)\<close>\<close>

definition requiredComponents :: "string list" where
  "requiredComponents =
     [''CPU'', ''GPU'', ''Motherboard'', ''RAM'', ''PSU'', ''CPU Cooler'', ''FAN'', ''PC case'']"

text \<open>Decimal digits of an array index, for the keys of arrays and strings.\<close>

function string_of_nat :: "nat \<Rightarrow> string" where
  "string_of_nat n =
     (if n < 10 then [''0123456789'' ! n]
      else string_of_nat (n div 10) @ [''0123456789'' ! (n mod 10)])"
  by pat_completeness auto
termination
  by (relation "measure id") auto

declare string_of_nat.simps [simp del]

definition index_entries :: "'a list \<Rightarrow> (string \<times> 'a) list" where
  "index_entries xs = zip (map string_of_nat [0..<length xs]) xs"

text \<open>
  \<open>Object.entries(v)\<close> and \<open>Object.keys(v)\<close>: a \<open>TypeError\<close> on \<open>null\<close> and
  \<open>undefined\<close>, nothing for a number or a boolean, the indices for a string or an array.
\<close>

definition Object_entries :: "jsval \<Rightarrow> error + (string \<times> jsval) list" where
  "Object_entries v =
     (case v of
        Undefined \<Rightarrow> Inl TypeError
      | Null \<Rightarrow> Inl TypeError
      | Bool b \<Rightarrow> Inr []
      | Num n \<Rightarrow> Inr []
      | Str s \<Rightarrow> Inr (index_entries (map (\<lambda>c. Str [c]) s))
      | Arr xs \<Rightarrow> Inr (index_entries xs)
      | Obj kvs \<Rightarrow> Inr kvs)"

definition Object_keys :: "jsval \<Rightarrow> error + string list" where
  "Object_keys v = (case Object_entries v of Inl err \<Rightarrow> Inl err | Inr kvs \<Rightarrow> Inr (map fst kvs))"

text \<open>
  \<open>components[key]\<close> for a key that is neither an index nor a property of a prototype
  (the eight required keys are neither): the own property, else \<open>undefined\<close>.
\<close>

definition js_get :: "jsval \<Rightarrow> string \<Rightarrow> jsval" where
  "js_get v key =
     (case v of
        Obj kvs \<Rightarrow> (case map_of kvs key of None \<Rightarrow> Undefined | Some x \<Rightarrow> x)
      | _ \<Rightarrow> Undefined)"

text \<open>
  A key is an array index when it is the canonical decimal form of a number up to
  \<open>2^32 - 2\<close>. An object enumerates its array indices first, in ascending order, and
  then its other keys in the order they were added.
\<close>

definition digit_of :: "char \<Rightarrow> nat option" where
  "digit_of c =
     (let n = (of_char c :: nat) in if 48 \<le> n \<and> n \<le> 57 then Some (n - 48) else None)"

definition array_index :: "string \<Rightarrow> nat option" where
  "array_index k =
     (case those (map digit_of k) of
        None \<Rightarrow> None
      | Some ds \<Rightarrow>
          if ds = [] \<or> (hd ds = 0 \<and> ds \<noteq> [0]) \<or> 4294967294 < foldl (\<lambda>n d. 10 * n + d) 0 ds
          then None
          else Some (foldl (\<lambda>n d. 10 * n + d) 0 ds))"

text \<open>
  \<open>obj[key] = v\<close> on an object made by \<open>{}\<close>: an own property is replaced where it
  stands; a new array index goes before the first key that is no array index or a greater
  one, any other new key goes last. The key \<open>__proto__\<close> is the accessor of
  \<open>Object.prototype\<close>: assigning an object to it sets the prototype and no own property.
\<close>

fun own_replace :: "string \<Rightarrow> 'a \<Rightarrow> (string \<times> 'a) list \<Rightarrow> (string \<times> 'a) list" where
  "own_replace k v [] = []"
| "own_replace k v (p # ps) = (if fst p = k then (k, v) # ps else p # own_replace k v ps)"

fun own_insert :: "string \<Rightarrow> 'a \<Rightarrow> (string \<times> 'a) list \<Rightarrow> (string \<times> 'a) list" where
  "own_insert k v [] = [(k, v)]"
| "own_insert k v (p # ps) =
     (case array_index k of
        None \<Rightarrow> p # own_insert k v ps
      | Some n \<Rightarrow>
          (case array_index (fst p) of
             None \<Rightarrow> (k, v) # p # ps
           | Some m \<Rightarrow> if n < m then (k, v) # p # ps else p # own_insert k v ps))"

definition own_update :: "string \<Rightarrow> 'a \<Rightarrow> (string \<times> 'a) list \<Rightarrow> (string \<times> 'a) list" where
  "own_update k v obj =
     (if k \<in> fst ` set obj then own_replace k v obj else own_insert k v obj)"

definition obj_set :: "(string \<times> 'a) list \<Rightarrow> string \<Rightarrow> 'a \<Rightarrow> (string \<times> 'a) list" where
  "obj_set obj key v = (if key = ''__proto__'' then obj else own_update key v obj)"

text \<open>One provider invocation: logged, then answered by the oracle.\<close>

definition call_provider :: "env \<Rightarrow> llm_request \<Rightarrow> world \<Rightarrow> (error + string) \<times> world" where
  "call_provider e r w =
     (snd (chat e (length (provider_log w)) r),
      w\<lparr>now := now w + fst (chat e (length (provider_log w)) r),
        provider_log := provider_log w @ [r]\<rparr>)"

text \<open>Lines 138 to 158: the INITIAL generation, its parse and the check of the keys.\<close>

definition initial_phase :: "env \<Rightarrow> request \<Rightarrow> world \<Rightarrow> (error + string \<times> jsval) \<times> world" where
  "initial_phase e req w =
     (case call_provider e (InitialPrompt (prompt req) (budget req)) w of
        (Inl err, w1) \<Rightarrow> (Inl err, w1)
      | (Inr responseText, w1) \<Rightarrow>
          (case JSON_parse e responseText of
             None \<Rightarrow> (Inl ParseFailure, w1)
           | Some components \<Rightarrow>
               (case Object_keys components of
                  Inl err \<Rightarrow> (Inl err, w1)
                | Inr componentKeys \<Rightarrow>
                    if list_all (\<lambda>comp. comp \<in> set componentKeys) requiredComponents
                    then (Inr (responseText, components), w1)
                    else (Inl MissingComponents, w1))))"

text \<open>
  The \<open>try\<close> block that both batches run for one component (lines 169 to 173 and 235 to
  239), and the two callbacks with their \<open>catch\<close>.
\<close>

definition resolve_try :: "env \<Rightarrow> jsval \<Rightarrow> world \<Rightarrow> (error + listing option) \<times> world" where
  "resolve_try e component w =
     (case fetchProduct e component w of
        (Inl err, w1) \<Rightarrow> (Inl err, w1)
      | (Inr products, w1) \<Rightarrow> (findBestMatch e component products, w1))"

definition resolve_initial ::
  "env \<Rightarrow> jsval \<Rightarrow> string \<Rightarrow> world \<Rightarrow> (string \<times> listing option) \<times> world" where
  "resolve_initial e components key w =
     (case resolve_try e (js_get components key) w of
        (Inl err, w1) \<Rightarrow> ((key, None), w1)
      | (Inr bestMatchProduct, w1) \<Rightarrow> ((key, bestMatchProduct), w1))"

definition resolve_adjusted ::
  "env \<Rightarrow> string \<times> jsval \<Rightarrow> world \<Rightarrow> (string \<times> listing option) \<times> world" where
  "resolve_adjusted e entry w =
     (case snd entry of
        Str s \<Rightarrow>
          (case resolve_try e (Str s) w of
             (Inl err, w1) \<Rightarrow> ((fst entry, None), w1)
           | (Inr bestMatchProduct, w1) \<Rightarrow> ((fst entry, bestMatchProduct), w1))
      | _ \<Rightarrow> ((fst entry, None), w))"

text \<open>\<open>Promise.all(xs.map(f))\<close>, the jobs run in the order of \<open>xs\<close>.\<close>

fun promise_all :: "('a \<Rightarrow> world \<Rightarrow> 'b \<times> world) \<Rightarrow> 'a list \<Rightarrow> world \<Rightarrow> 'b list \<times> world" where
  "promise_all f [] w = ([], w)"
| "promise_all f (x # xs) w =
     (case f x w of (y, w1) \<Rightarrow> (case promise_all f xs w1 of (ys, w2) \<Rightarrow> (y # ys, w2)))"

text \<open>Lines 181 to 199: what the handler derives from the initial batch.\<close>

definition availableProducts ::
  "(string \<times> listing option) list \<Rightarrow> (string \<times> listing option) list" where
  "availableProducts fetchedProducts = filter (\<lambda>kp. snd kp \<noteq> None) fetchedProducts"

definition missingComponents :: "(string \<times> listing option) list \<Rightarrow> string list" where
  "missingComponents fetchedProducts = map fst (filter (\<lambda>kp. snd kp = None) fetchedProducts)"

definition merge_products ::
  "(string \<times> listing) list \<Rightarrow> (string \<times> listing option) list \<Rightarrow> (string \<times> listing) list" where
  "merge_products acc kps =
     foldl (\<lambda>acc kp. case snd kp of None \<Rightarrow> acc | Some product \<Rightarrow> obj_set acc (fst kp) product)
       acc kps"

definition productResponse_of :: "(string \<times> listing option) list \<Rightarrow> (string \<times> listing) list" where
  "productResponse_of fetchedProducts = merge_products [] (availableProducts fetchedProducts)"

definition totalPrice_of :: "(string \<times> listing) list \<Rightarrow> int" where
  "totalPrice_of productResponse = foldl (\<lambda>sum product. sum + price product) 0 (map snd productResponse)"

text \<open>
  JavaScript numbers are IEEE 754 doubles. A positive rational \<open>x\<close> lies in one binade,
  \<open>2^e \<le> x < 2^(e+1)\<close> with \<open>e = expo x\<close>; the doubles of that binade are the
  multiples of \<open>2^(e-52)\<close>, below \<open>2^-1022\<close> the multiples of \<open>2^-1074\<close>; \<open>fl x\<close> is
  the nearest of them, the one with the even multiplier when two are equally near. What
  rounds to \<open>2^1024\<close> or beyond is an infinity.
\<close>

definition expo :: "rat \<Rightarrow> int" where
  "expo x =
     (let e0 = bitlen (fst (quotient_of x)) - bitlen (snd (quotient_of x))
      in if 2 powi e0 \<le> x then e0 else e0 - 1)"

definition round_even :: "rat \<Rightarrow> int" where
  "round_even q =
     (let f = \<lfloor>q\<rfloor>; r = q - of_int f
      in if r < 1 / 2 then f else if 1 / 2 < r then f + 1 else if even f then f else f + 1)"

definition fl :: "rat \<Rightarrow> rat" where
  "fl x = of_int (round_even (x / 2 powi (max (expo x) (- 1022) - 52)))
            * 2 powi (max (expo x) (- 1022) - 52)"

datatype double = Fin rat | PInf | NInf | NaN

definition round_double :: "rat \<Rightarrow> double" where
  "round_double x =
     (if x = 0 then Fin 0
      else if 0 < x then (if 2 powi 1024 \<le> fl x then PInf else Fin (fl x))
      else (if 2 powi 1024 \<le> fl (- x) then NInf else Fin (- fl (- x))))"

text \<open>The operations of line 199: \<open>-\<close>, \<open>Math.abs\<close>, \<open>/\<close> and \<open><=\<close> on doubles.\<close>

fun dsub :: "double \<Rightarrow> double \<Rightarrow> double" where
  "dsub (Fin a) (Fin b) = round_double (a - b)"
| "dsub NaN y = NaN"
| "dsub x NaN = NaN"
| "dsub PInf PInf = NaN"
| "dsub NInf NInf = NaN"
| "dsub PInf y = PInf"
| "dsub NInf y = NInf"
| "dsub (Fin a) PInf = NInf"
| "dsub (Fin a) NInf = PInf"

fun dabs :: "double \<Rightarrow> double" where
  "dabs (Fin a) = Fin \<bar>a\<bar>"
| "dabs PInf = PInf"
| "dabs NInf = PInf"
| "dabs NaN = NaN"

fun ddiv :: "double \<Rightarrow> double \<Rightarrow> double" where
  "ddiv (Fin a) (Fin b) =
     (if b = 0 then (if a = 0 then NaN else if 0 < a then PInf else NInf)
      else round_double (a / b))"
| "ddiv NaN y = NaN"
| "ddiv x NaN = NaN"
| "ddiv (Fin a) y = Fin 0"
| "ddiv x (Fin b) = (if (x = PInf) = (0 \<le> b) then PInf else NInf)"
| "ddiv x y = NaN"

fun dle :: "double \<Rightarrow> double \<Rightarrow> bool" where
  "dle (Fin a) (Fin b) = (a \<le> b)"
| "dle NaN y = False"
| "dle x NaN = False"
| "dle NInf y = True"
| "dle x PInf = True"
| "dle x y = False"

text \<open>The double that an integer is read as.\<close>

definition to_double :: "int \<Rightarrow> double" where
  "to_double n = round_double (of_int n)"

text \<open>
  \<open>Math.abs(totalPrice - budget) / budget <= 0.1\<close>: the difference, the quotient and
  the literal \<open>0.1\<close> are each rounded to a double. Dividing by a zero budget gives
  \<open>Infinity\<close> or \<open>NaN\<close>, and neither is \<open><= 0.1\<close>.
\<close>

definition within_tolerance :: "int \<Rightarrow> int \<Rightarrow> bool" where
  "within_tolerance totalPrice b =
     dle (ddiv (dabs (dsub (to_double totalPrice) (to_double b))) (to_double b))
       (round_double (1 / 10))"

text \<open>
  Lines 205 to 263: the ADJUSTED generation, the batch over the entries of its answer and
  the merge. \<open>queue_ready\<close> is when the request's own queue (\<open>minTime: 5000\<close>) admits
  its second job.
\<close>

definition adjusted_phase ::
  "env \<Rightarrow> request \<Rightarrow> nat \<Rightarrow> string list \<Rightarrow> (string \<times> listing) list \<Rightarrow> int \<Rightarrow> world
     \<Rightarrow> reply \<times> world" where
  "adjusted_phase e req queue_ready missing productResponse totalPrice w =
     (let componentsWithPrices =
            map (\<lambda>kp. (fst kp, name (snd kp), price (snd kp))) productResponse
      in case call_provider e
               (AdjustmentPrompt totalPrice (budget req) missing componentsWithPrices) w of
           (Inl err, w1) \<Rightarrow> (InternalServerError, w1)
         | (Inr adjustedResponseText, w1) \<Rightarrow>
             (case JSON_parse e adjustedResponseText of
                None \<Rightarrow> (InternalServerError, w1)
              | Some adjustedComponents \<Rightarrow>
                  (let w2 = w1\<lparr>now := max (now w1) queue_ready\<rparr>
                   in case Object_entries adjustedComponents of
                        Inl err \<Rightarrow> (InternalServerError, w2)
                      | Inr entries \<Rightarrow>
                          (case promise_all (resolve_adjusted e) entries w2 of
                             (adjustedFetchedProducts, w3) \<Rightarrow>
                               (Send adjustedResponseText
                                  (merge_products productResponse adjustedFetchedProducts),
                                w3)))))"

definition handler :: "env \<Rightarrow> request \<Rightarrow> world \<Rightarrow> reply \<times> world" where
  "handler e req w =
     (case initial_phase e req w of
        (Inl err, w1) \<Rightarrow> (InternalServerError, w1)
      | (Inr (responseText, components), w1) \<Rightarrow>
          (case promise_all (resolve_initial e components) requiredComponents w1 of
             (fetchedProducts, w2) \<Rightarrow>
               (let missing = missingComponents fetchedProducts;
                    productResponse = productResponse_of fetchedProducts;
                    totalPrice = totalPrice_of productResponse
                in if length missing = 0 \<and> within_tolerance totalPrice (budget req)
                   then (Send responseText productResponse, w2)
                   else adjusted_phase e req (now w1 + 5000) missing productResponse
                          totalPrice w2)))"

section \<open>Concrete environments\<close>

text \<open>
  Small worlds on which the theorems below are run: a marketplace whose answers are given
  per request number, a provider whose answers are given per invocation, and an empty
  process state.
\<close>

definition demo_card :: "string \<Rightarrow> int \<Rightarrow> card" where
  "demo_card t p =
     \<lparr>title = Str t, unitPrice = p, shopLink = ''/shop/p/1'', previewImages = Some [Some ''a.jpg''],
      card_rating = Num 5, reviewsQuantity = Num 12\<rparr>"

definition demo_listing :: "string \<Rightarrow> int \<Rightarrow> listing" where
  "demo_listing t p =
     \<lparr>name = Str t, price = p, url = ''/shop/p/1'', image = ''a.jpg'',
      rating = Num 5, reviewCount = Num 12\<rparr>"

definition json_response :: "card list \<Rightarrow> response" where
  "json_response cs = \<lparr>content_type = Some ''application/json'', cards = Some cs\<rparr>"

definition demo_env ::
  "(nat \<Rightarrow> string \<Rightarrow> nat \<times> outcome) \<Rightarrow> (nat \<Rightarrow> llm_request \<Rightarrow> nat \<times> (error + string))
     \<Rightarrow> (string \<Rightarrow> jsval option) \<Rightarrow> env" where
  "demo_env ax ch parse =
     \<lparr>axios_get = ax, chat = ch, JSON_parse = parse, encodeURIComponent = Some,
      js_String = (\<lambda>v. ''[object Object]''),
      compareTwoStrings = (\<lambda>a b. if a = b then 1 else 0)\<rparr>"

definition demo_world :: world where
  "demo_world =
     \<lparr>now = 0, requests = 0, sleeps = [], cache = Map.empty, limiter_ready = 0,
      provider_log = []\<rparr>"

text \<open>Three marketplaces: throttled three times, throttled once and then failing, always throttled.\<close>

definition ax_three_throttles :: "nat \<Rightarrow> string \<Rightarrow> nat \<times> outcome" where
  "ax_three_throttles n u =
     (120, if n < 3 then Rejected (Some 429) else Resolved (json_response []))"

definition ax_then_error :: "nat \<Rightarrow> string \<Rightarrow> nat \<times> outcome" where
  "ax_then_error n u = (120, if n < 1 then Rejected (Some 429) else Rejected (Some 500))"

definition ax_always_throttled :: "nat \<Rightarrow> string \<Rightarrow> nat \<times> outcome" where
  "ax_always_throttled n u = (120, Rejected (Some 429))"

definition no_chat :: "nat \<Rightarrow> llm_request \<Rightarrow> nat \<times> (error + string)" where
  "no_chat n r = (0, Inl ProviderError)"

text \<open>
  A provider that answers \<open>A\<close> to the initial prompt and \<open>B\<close> to the adjustment prompt,
  and a parser that reads \<open>A\<close> as a full component specification, \<open>B\<close> as a new
  graphics card only, \<open>C\<close> as a specification with a ninth key, and nothing else.
\<close>

definition demo_components :: jsval where
  "demo_components =
     Obj [(''CPU'', Str ''cpu''), (''GPU'', Str ''gpu''), (''Motherboard'', Str ''mb''),
          (''RAM'', Str ''ram''), (''PSU'', Str ''psu''), (''CPU Cooler'', Str ''cooler''),
          (''FAN'', Str ''fan''), (''PC case'', Str ''case'')]"

definition demo_components_extra :: jsval where
  "demo_components_extra =
     Obj [(''CPU'', Str ''cpu''), (''GPU'', Str ''gpu''), (''Motherboard'', Str ''mb''),
          (''RAM'', Str ''ram''), (''PSU'', Str ''psu''), (''CPU Cooler'', Str ''cooler''),
          (''FAN'', Str ''fan''), (''PC case'', Str ''case''), (''SSD'', Str ''ssd'')]"

definition demo_parse :: "string \<Rightarrow> jsval option" where
  "demo_parse t =
     (if t = ''A'' then Some demo_components
      else if t = ''B'' then Some (Obj [(''GPU'', Str ''gpu2''), (''RAM'', Num 16)])
      else if t = ''C'' then Some demo_components_extra
      else None)"

definition demo_chat :: "string \<Rightarrow> string \<Rightarrow> nat \<Rightarrow> llm_request \<Rightarrow> nat \<times> (error + string)" where
  "demo_chat a b n r =
     (800, Inr (case r of InitialPrompt p x \<Rightarrow> a | AdjustmentPrompt t x m c \<Rightarrow> b))"

definition ax_shop :: "int \<Rightarrow> nat \<Rightarrow> string \<Rightarrow> nat \<times> outcome" where
  "ax_shop p n u = (120, Resolved (json_response [demo_card ''item'' p]))"


text \<open>The same shop, whose second request (the graphics card's) fails with status 500.\<close>

definition ax_no_gpu :: "int \<Rightarrow> nat \<Rightarrow> string \<Rightarrow> nat \<times> outcome" where
  "ax_no_gpu p n u =
     (120, if n = 1 then Rejected (Some 500) else Resolved (json_response [demo_card ''item'' p]))"

text \<open>
  A shop with one dear item, answered to the first request, and items of one unit after
  it: eight of them cost 8099999999999999.
\<close>

definition ax_dear :: "nat \<Rightarrow> string \<Rightarrow> nat \<times> outcome" where
  "ax_dear n u =
     (120, Resolved (json_response
        [demo_card ''item'' (if n = 0 then 8099999999999992 else 1)]))"

definition demo_request :: "int \<Rightarrow> request" where
  "demo_request b = \<lparr>prompt = ''gaming pc'', budget = b\<rparr>"

text \<open>The products mapping of an initial batch that found everything but the graphics card.\<close>

definition demo_seven :: "(string \<times> listing) list" where
  "demo_seven =
     map (\<lambda>k. (k, demo_listing ''item'' 62500))
       [''CPU'', ''Motherboard'', ''RAM'', ''PSU'', ''CPU Cooler'', ''FAN'', ''PC case'']"

definition demo_adjusted_entries :: "(string \<times> jsval) list" where
  "demo_adjusted_entries = [(''GPU'', Str ''gpu2''), (''RAM'', Num 16)]"
section \<open>The retry loop\<close>

lemma upt_0_Suc_map: "map f [0..<Suc k] = f 0 # map (\<lambda>j. f (Suc j)) [0..<k]"
proof -
  have "[0..<Suc k] = 0 # map Suc [0..<k]"
    by (simp add: upt_conv_Cons map_Suc_upt del: upt_Suc)
  then show ?thesis by (simp add: comp_def del: upt_Suc)
qed

lemma loop_throttled:
  "(\<forall>j<k. throttled e u (requests w + j)) \<Longrightarrow> i + k \<le> m \<Longrightarrow>
   \<exists>w'. fetchWithRetry_loop e u m b i w = fetchWithRetry_loop e u m b (i + k) w'
      \<and> requests w' = requests w + k
      \<and> sleeps w' = sleeps w @ map (\<lambda>j. b * 2 ^ (i + j)) [0..<k]
      \<and> cache w' = cache w \<and> provider_log w' = provider_log w
      \<and> limiter_ready w' = limiter_ready w \<and> now w \<le> now w'"
proof (induction k arbitrary: i w)
  case 0
  then show ?case by auto
next
  case (Suc k)
  let ?w1 = "w\<lparr>now := now w + fst (axios_get e (requests w) u), requests := Suc (requests w)\<rparr>"
  let ?w2 = "?w1\<lparr>now := now ?w1 + b * 2 ^ i, sleeps := sleeps ?w1 @ [b * 2 ^ i]\<rparr>"
  from Suc.prems have thr0: "throttled e u (requests w)" by force
  from Suc.prems have lt: "i < m" by simp
  have step: "fetchWithRetry_loop e u m b i w = fetchWithRetry_loop e u m b (Suc i) ?w2"
    using thr0 lt by (subst fetchWithRetry_loop.simps) (simp add: throttled_def Let_def)
  have "\<forall>j<k. throttled e u (requests ?w2 + j)"
    using Suc.prems(1) by (auto dest: spec [where x = "Suc j" for j])
  moreover have "Suc i + k \<le> m" using Suc.prems by simp
  ultimately obtain w' where w':
    "fetchWithRetry_loop e u m b (Suc i) ?w2 = fetchWithRetry_loop e u m b (Suc i + k) w'"
    "requests w' = requests ?w2 + k"
    "sleeps w' = sleeps ?w2 @ map (\<lambda>j. b * 2 ^ (Suc i + j)) [0..<k]"
    "cache w' = cache ?w2" "provider_log w' = provider_log ?w2"
    "limiter_ready w' = limiter_ready ?w2" "now ?w2 \<le> now w'"
    using Suc.IH [of ?w2 "Suc i"] by blast
  have "sleeps w' = sleeps w @ map (\<lambda>j. b * 2 ^ (i + j)) [0..<Suc k]"
    using w'(3) by (simp add: upt_0_Suc_map del: upt_Suc)
  with step w' show ?case
    by (intro exI [of _ w']) (simp del: upt_Suc)
qed


lemma loop_frame_aux:
  "fetchWithRetry_loop e u m b i w = (res, w') \<Longrightarrow>
   cache w' = cache w \<and> provider_log w' = provider_log w
   \<and> limiter_ready w' = limiter_ready w \<and> now w \<le> now w'
   \<and> requests w \<le> requests w' \<and> requests w' + i \<le> requests w + max m i"
proof (induction e u m b i w arbitrary: res w' rule: fetchWithRetry_loop.induct)
  case (1 e u maxRetries baseDelay i w)
  show ?case
  proof (cases "i < maxRetries")
    case False
    with "1.prems" show ?thesis
      by (subst (asm) fetchWithRetry_loop.simps) auto
  next
    case lt: True
    show ?thesis
    proof (cases "snd (axios_get e (requests w) u)")
      case (Resolved r)
      with lt "1.prems" show ?thesis
        by (subst (asm) fetchWithRetry_loop.simps) (auto simp: Let_def)
    next
      case (Rejected st)
      show ?thesis
      proof (cases "st = Some 429")
        case False
        with lt Rejected "1.prems" show ?thesis
          by (subst (asm) fetchWithRetry_loop.simps) (auto simp: Let_def)
      next
        case True
        let ?w1 = "w\<lparr>now := now w + fst (axios_get e (requests w) u),
                      requests := Suc (requests w)\<rparr>"
        let ?w2 = "?w1\<lparr>now := now ?w1 + baseDelay * 2 ^ i,
                       sleeps := sleeps ?w1 @ [baseDelay * 2 ^ i]\<rparr>"
        have "fetchWithRetry_loop e u maxRetries baseDelay (Suc i) ?w2 = (res, w')"
          using "1.prems" lt Rejected True
          by (subst (asm) fetchWithRetry_loop.simps) (simp add: Let_def)
        from "1.IH" [OF lt refl Rejected True this] lt show ?thesis
          by (simp add: max_def split: if_splits)
      qed
    qed
  qed
qed

lemma loop_frame:
  "cache (snd (fetchWithRetry_loop e u m b i w)) = cache w
   \<and> provider_log (snd (fetchWithRetry_loop e u m b i w)) = provider_log w
   \<and> limiter_ready (snd (fetchWithRetry_loop e u m b i w)) = limiter_ready w
   \<and> now w \<le> now (snd (fetchWithRetry_loop e u m b i w))
   \<and> requests w \<le> requests (snd (fetchWithRetry_loop e u m b i w))
   \<and> requests (snd (fetchWithRetry_loop e u m b i w)) + i \<le> requests w + max m i"
  using loop_frame_aux [of e u m b i w "fst (fetchWithRetry_loop e u m b i w)"
      "snd (fetchWithRetry_loop e u m b i w)"]
  by simp

lemma loop_resolved_after:
  assumes "k < m" "\<forall>j<k. throttled e u (requests w + j)"
    and "snd (axios_get e (requests w + k) u) = Resolved r"
  shows "fst (fetchWithRetry_loop e u m b 0 w) = Inr r
    \<and> sleeps (snd (fetchWithRetry_loop e u m b 0 w)) = sleeps w @ map (\<lambda>j. b * 2 ^ j) [0..<k]
    \<and> requests (snd (fetchWithRetry_loop e u m b 0 w)) = requests w + Suc k"
proof -
  from assms obtain w' where w':
    "fetchWithRetry_loop e u m b 0 w = fetchWithRetry_loop e u m b (0 + k) w'"
    "requests w' = requests w + k"
    "sleeps w' = sleeps w @ map (\<lambda>j. b * 2 ^ (0 + j)) [0..<k]"
    using loop_throttled [of k e u w 0 m b] by auto
  have "fetchWithRetry_loop e u m b k w' =
      (Inr r, w'\<lparr>now := now w' + fst (axios_get e (requests w') u), requests := Suc (requests w')\<rparr>)"
    using assms(1,3) w'(2) by (subst fetchWithRetry_loop.simps) (simp add: Let_def)
  with w' show ?thesis by simp
qed

lemma loop_rejected_after:
  assumes "k < m" "\<forall>j<k. throttled e u (requests w + j)"
    and "snd (axios_get e (requests w + k) u) = Rejected st" "st \<noteq> Some 429"
  shows "fst (fetchWithRetry_loop e u m b 0 w) = Inl (AxiosError st)
    \<and> sleeps (snd (fetchWithRetry_loop e u m b 0 w)) = sleeps w @ map (\<lambda>j. b * 2 ^ j) [0..<k]
    \<and> requests (snd (fetchWithRetry_loop e u m b 0 w)) = requests w + Suc k"
proof -
  from assms obtain w' where w':
    "fetchWithRetry_loop e u m b 0 w = fetchWithRetry_loop e u m b (0 + k) w'"
    "requests w' = requests w + k"
    "sleeps w' = sleeps w @ map (\<lambda>j. b * 2 ^ (0 + j)) [0..<k]"
    using loop_throttled [of k e u w 0 m b] by auto
  have "fetchWithRetry_loop e u m b k w' =
      (Inl (AxiosError st),
       w'\<lparr>now := now w' + fst (axios_get e (requests w') u), requests := Suc (requests w')\<rparr>)"
    using assms(1,3,4) w'(2) by (subst fetchWithRetry_loop.simps) (simp add: Let_def)
  with w' show ?thesis by simp
qed

lemma loop_exhausted:
  assumes "\<forall>j<m. throttled e u (requests w + j)"
  shows "fst (fetchWithRetry_loop e u m b 0 w) = Inl MaxRetriesReached
    \<and> sleeps (snd (fetchWithRetry_loop e u m b 0 w)) = sleeps w @ map (\<lambda>j. b * 2 ^ j) [0..<m]
    \<and> requests (snd (fetchWithRetry_loop e u m b 0 w)) = requests w + m"
proof -
  from assms obtain w' where w':
    "fetchWithRetry_loop e u m b 0 w = fetchWithRetry_loop e u m b (0 + m) w'"
    "requests w' = requests w + m"
    "sleeps w' = sleeps w @ map (\<lambda>j. b * 2 ^ (0 + j)) [0..<m]"
    using loop_throttled [of m e u w 0 m b] by auto
  have "fetchWithRetry_loop e u m b m w' = (Inl MaxRetriesReached, w')"
    by (subst fetchWithRetry_loop.simps) simp
  with w' show ?thesis by simp
qed

text \<open>
  Claim C6. Counting the oracle's answers from the first request of the call: after \<open>k\<close>
  throttling answers (\<open>k\<close> below \<open>maxRetries\<close>) a success is returned and a rejection
  that is not a 429 is rethrown at once, in both cases after exactly the delays
  \<open>baseDelay * 2^j\<close> for \<open>j < k\<close> and \<open>k + 1\<close> requests, so nothing but a 429 is
  retried; \<open>maxRetries\<close> throttling answers end in \<open>'Max retries reached'\<close>; three
  throttling answers and a success wait \<open>baseDelay\<close>, \<open>2 * baseDelay\<close> and
  \<open>4 * baseDelay\<close>; no call issues more than \<open>maxRetries\<close> requests, and
  \<open>fetchWithRetry\<close> runs the loop with 5 and 5000.
\<close>

theorem fetchWithRetry_backoff:
  "(\<forall>k r. k < m \<and> (\<forall>j<k. throttled e u (requests w + j))
        \<and> snd (axios_get e (requests w + k) u) = Resolved r \<longrightarrow>
      fst (fetchWithRetry_loop e u m b 0 w) = Inr r
      \<and> sleeps (snd (fetchWithRetry_loop e u m b 0 w)) = sleeps w @ map (\<lambda>j. b * 2 ^ j) [0..<k]
      \<and> requests (snd (fetchWithRetry_loop e u m b 0 w)) = requests w + Suc k)
   \<and> (\<forall>k st. k < m \<and> (\<forall>j<k. throttled e u (requests w + j))
        \<and> snd (axios_get e (requests w + k) u) = Rejected st \<and> st \<noteq> Some 429 \<longrightarrow>
      fst (fetchWithRetry_loop e u m b 0 w) = Inl (AxiosError st)
      \<and> sleeps (snd (fetchWithRetry_loop e u m b 0 w)) = sleeps w @ map (\<lambda>j. b * 2 ^ j) [0..<k]
      \<and> requests (snd (fetchWithRetry_loop e u m b 0 w)) = requests w + Suc k)
   \<and> ((\<forall>j<m. throttled e u (requests w + j)) \<longrightarrow>
      fst (fetchWithRetry_loop e u m b 0 w) = Inl MaxRetriesReached
      \<and> sleeps (snd (fetchWithRetry_loop e u m b 0 w)) = sleeps w @ map (\<lambda>j. b * 2 ^ j) [0..<m]
      \<and> requests (snd (fetchWithRetry_loop e u m b 0 w)) = requests w + m)
   \<and> (throttled e u (requests w) \<and> throttled e u (requests w + 1)
        \<and> throttled e u (requests w + 2)
        \<and> snd (axios_get e (requests w + 3) u) = Resolved r3 \<and> 3 < m \<longrightarrow>
      fst (fetchWithRetry_loop e u m b 0 w) = Inr r3
      \<and> sleeps (snd (fetchWithRetry_loop e u m b 0 w)) = sleeps w @ [b, 2 * b, 4 * b])
   \<and> requests (snd (fetchWithRetry_loop e u m b 0 w)) \<le> requests w + m
   \<and> fetchWithRetry e u w = fetchWithRetry_loop e u 5 5000 0 w"
proof (intro conjI allI impI)
  fix k r
  assume a: "k < m \<and> (\<forall>j<k. throttled e u (requests w + j))
        \<and> snd (axios_get e (requests w + k) u) = Resolved r"
  then have h: "fst (fetchWithRetry_loop e u m b 0 w) = Inr r
    \<and> sleeps (snd (fetchWithRetry_loop e u m b 0 w)) = sleeps w @ map (\<lambda>j. b * 2 ^ j) [0..<k]
    \<and> requests (snd (fetchWithRetry_loop e u m b 0 w)) = requests w + Suc k"
    using loop_resolved_after [of k m e u w r b] by blast
  from h show "fst (fetchWithRetry_loop e u m b 0 w) = Inr r" by blast
  from h show "sleeps (snd (fetchWithRetry_loop e u m b 0 w)) = sleeps w @ map (\<lambda>j. b * 2 ^ j) [0..<k]"
    by blast
  from h show "requests (snd (fetchWithRetry_loop e u m b 0 w)) = requests w + Suc k" by blast
next
  fix k st
  assume a: "k < m \<and> (\<forall>j<k. throttled e u (requests w + j))
        \<and> snd (axios_get e (requests w + k) u) = Rejected st \<and> st \<noteq> Some 429"
  then have h: "fst (fetchWithRetry_loop e u m b 0 w) = Inl (AxiosError st)
    \<and> sleeps (snd (fetchWithRetry_loop e u m b 0 w)) = sleeps w @ map (\<lambda>j. b * 2 ^ j) [0..<k]
    \<and> requests (snd (fetchWithRetry_loop e u m b 0 w)) = requests w + Suc k"
    using loop_rejected_after [of k m e u w st b] by blast
  from h show "fst (fetchWithRetry_loop e u m b 0 w) = Inl (AxiosError st)" by blast
  from h show "sleeps (snd (fetchWithRetry_loop e u m b 0 w)) = sleeps w @ map (\<lambda>j. b * 2 ^ j) [0..<k]"
    by blast
  from h show "requests (snd (fetchWithRetry_loop e u m b 0 w)) = requests w + Suc k" by blast
next
  assume a: "\<forall>j<m. throttled e u (requests w + j)"
  note h = loop_exhausted [OF a, of b]
  from h show "fst (fetchWithRetry_loop e u m b 0 w) = Inl MaxRetriesReached" by blast
  from h show "sleeps (snd (fetchWithRetry_loop e u m b 0 w)) = sleeps w @ map (\<lambda>j. b * 2 ^ j) [0..<m]"
    by blast
  from h show "requests (snd (fetchWithRetry_loop e u m b 0 w)) = requests w + m" by blast
next
  assume a: "throttled e u (requests w) \<and> throttled e u (requests w + 1)
        \<and> throttled e u (requests w + 2)
        \<and> snd (axios_get e (requests w + 3) u) = Resolved r3 \<and> 3 < m"
  have thr: "\<forall>j<3. throttled e u (requests w + j)"
  proof (intro allI impI)
    fix j :: nat
    assume "j < 3"
    then have "j = 0 \<or> j = 1 \<or> j = 2" by arith
    with a show "throttled e u (requests w + j)" by auto
  qed
  have h: "fst (fetchWithRetry_loop e u m b 0 w) = Inr r3
    \<and> sleeps (snd (fetchWithRetry_loop e u m b 0 w)) = sleeps w @ map (\<lambda>j. b * 2 ^ j) [0..<3]
    \<and> requests (snd (fetchWithRetry_loop e u m b 0 w)) = requests w + Suc 3"
    using loop_resolved_after [of 3 m e u w r3 b] a thr by blast
  have m3: "map (\<lambda>j. b * 2 ^ j) [0..<3] = [b, 2 * b, 4 * b]"
    by (simp add: upt_rec [of 0] upt_rec [of 1] upt_rec [of 2] numeral_3_eq_3 mult.commute)
  from h show "fst (fetchWithRetry_loop e u m b 0 w) = Inr r3" by blast
  from h m3 show "sleeps (snd (fetchWithRetry_loop e u m b 0 w)) = sleeps w @ [b, 2 * b, 4 * b]"
    by simp
next
  show "requests (snd (fetchWithRetry_loop e u m b 0 w)) \<le> requests w + m"
    using loop_frame [of e u m b 0 w] by simp
next
  show "fetchWithRetry e u w = fetchWithRetry_loop e u 5 5000 0 w"
    by (simp add: fetchWithRetry_def)
qed

theorem fetchWithRetry_backoff_witness:
  "fst (fetchWithRetry (demo_env ax_three_throttles no_chat Map.empty) ''u'' demo_world)
     = Inr (json_response [])
   \<and> sleeps (snd (fetchWithRetry (demo_env ax_three_throttles no_chat Map.empty) ''u'' demo_world))
     = [5000, 10000, 20000]
   \<and> fst (fetchWithRetry (demo_env ax_then_error no_chat Map.empty) ''u'' demo_world)
     = Inl (AxiosError (Some 500))
   \<and> sleeps (snd (fetchWithRetry (demo_env ax_then_error no_chat Map.empty) ''u'' demo_world))
     = [5000]
   \<and> requests (snd (fetchWithRetry (demo_env ax_then_error no_chat Map.empty) ''u'' demo_world))
     = 2
   \<and> fst (fetchWithRetry (demo_env ax_always_throttled no_chat Map.empty) ''u'' demo_world)
     = Inl MaxRetriesReached
   \<and> sleeps (snd (fetchWithRetry (demo_env ax_always_throttled no_chat Map.empty) ''u'' demo_world))
     = [5000, 10000, 20000, 40000, 80000]"
proof -
  let ?e3 = "demo_env ax_three_throttles no_chat Map.empty"
  let ?e1 = "demo_env ax_then_error no_chat Map.empty"
  let ?e5 = "demo_env ax_always_throttled no_chat Map.empty"
  note T = fetchWithRetry_backoff [where m = 5 and b = 5000 and w = demo_world and u = "''u''"]
  have three: "fst (fetchWithRetry_loop ?e3 ''u'' 5 5000 0 demo_world) = Inr (json_response [])
      \<and> sleeps (snd (fetchWithRetry_loop ?e3 ''u'' 5 5000 0 demo_world))
          = sleeps demo_world @ [5000, 2 * 5000, 4 * 5000]"
    by (rule T [where e = ?e3 and ?r3.0 = "json_response []",
          THEN conjunct2, THEN conjunct2, THEN conjunct2, THEN conjunct1, rule_format])
      (simp add: throttled_def demo_env_def ax_three_throttles_def demo_world_def)
  have one: "fst (fetchWithRetry_loop ?e1 ''u'' 5 5000 0 demo_world) = Inl (AxiosError (Some 500))
      \<and> sleeps (snd (fetchWithRetry_loop ?e1 ''u'' 5 5000 0 demo_world))
          = sleeps demo_world @ map (\<lambda>j. 5000 * 2 ^ j) [0..<1]
      \<and> requests (snd (fetchWithRetry_loop ?e1 ''u'' 5 5000 0 demo_world))
          = requests demo_world + Suc 1"
    by (rule T [where e = ?e1, THEN conjunct2, THEN conjunct1, rule_format])
      (simp add: throttled_def demo_env_def ax_then_error_def demo_world_def)
  have five: "fst (fetchWithRetry_loop ?e5 ''u'' 5 5000 0 demo_world) = Inl MaxRetriesReached
      \<and> sleeps (snd (fetchWithRetry_loop ?e5 ''u'' 5 5000 0 demo_world))
          = sleeps demo_world @ map (\<lambda>j. 5000 * 2 ^ j) [0..<5]
      \<and> requests (snd (fetchWithRetry_loop ?e5 ''u'' 5 5000 0 demo_world))
          = requests demo_world + 5"
    by (rule T [where e = ?e5, THEN conjunct2, THEN conjunct2, THEN conjunct1, rule_format])
      (simp add: throttled_def demo_env_def ax_always_throttled_def)
  have up5: "[0..<5] = [0, 1, 2, 3, 4::nat]"
    by (simp add: upt_rec)
  from three one five show ?thesis
    by (simp add: fetchWithRetry_def demo_world_def up5)
qed

section \<open>Best-match selection\<close>

lemma ss_bestMatchIndex_prefix:
  fixes rs :: "rat list"
  shows "0 < length rs \<Longrightarrow> n \<le> length rs \<Longrightarrow>
   foldl (\<lambda>best i. if rs ! best < rs ! i then i else best) 0 [0..<n] < length rs
   \<and> (\<forall>i<n. rs ! i \<le> rs ! foldl (\<lambda>best i. if rs ! best < rs ! i then i else best) 0 [0..<n])"
proof (induction n)
  case 0
  then show ?case by simp
next
  case (Suc n)
  let ?b = "foldl (\<lambda>best i. if rs ! best < rs ! i then i else best) 0 [0..<n]"
  from Suc have IH: "?b < length rs" "\<forall>i<n. rs ! i \<le> rs ! ?b" by simp_all
  show ?case
  proof (cases "rs ! ?b < rs ! n")
    case True
    have "\<forall>i<Suc n. rs ! i \<le> rs ! n"
    proof (intro allI impI)
      fix i assume "i < Suc n"
      then consider "i < n" | "i = n" by linarith
      then show "rs ! i \<le> rs ! n"
      proof cases
        case 1
        with IH(2) have "rs ! i \<le> rs ! ?b" by blast
        with True show ?thesis by simp
      qed simp
    qed
    with True Suc.prems show ?thesis by simp
  next
    case False
    have "\<forall>i<Suc n. rs ! i \<le> rs ! ?b"
    proof (intro allI impI)
      fix i assume "i < Suc n"
      then consider "i < n" | "i = n" by linarith
      then show "rs ! i \<le> rs ! ?b"
      proof cases
        case 1
        with IH(2) show ?thesis by simp
      next
        case 2
        with False show ?thesis by simp
      qed
    qed
    with False IH(1) show ?thesis by simp
  qed
qed

lemma ss_bestMatchIndex_max:
  fixes rs :: "rat list"
  assumes "rs \<noteq> []"
  shows "ss_bestMatchIndex rs < length rs"
    and "i < length rs \<Longrightarrow> rs ! i \<le> rs ! ss_bestMatchIndex rs"
  using ss_bestMatchIndex_prefix [of rs "length rs"] assms
  by (simp_all add: ss_bestMatchIndex_def)

lemma indexOf_member:
  "x \<in> set ys \<Longrightarrow>
   0 \<le> indexOf ys x \<and> indexOf ys x < int (length ys) \<and> ys ! nat (indexOf ys x) = x"
proof (induction ys)
  case Nil
  then show ?case by simp
next
  case (Cons y ys)
  show ?case
  proof (cases "y = x")
    case True
    then show ?thesis by simp
  next
    case False
    with Cons.prems have "x \<in> set ys" by simp
    from Cons.IH [OF this] False show ?thesis
      by (simp add: Let_def nat_add_distrib)
  qed
qed

lemma those_as_string_Str: "those (map as_string (map Str ns)) = Some ns"
  by (induction ns) (simp_all add: as_string_def)

lemma those_as_string_None:
  "v \<in> set vs \<Longrightarrow> as_string v = None \<Longrightarrow> those (map as_string vs) = None"
  by (induction vs) (auto split: option.splits)

lemma string_names:
  "(\<forall>q\<in>set products. \<exists>n. name q = Str n) \<Longrightarrow> \<exists>ns. map name products = map Str ns"
proof (induction products)
  case Nil
  then show ?case by simp
next
  case (Cons q qs)
  then obtain ns where ns: "map name qs = map Str ns" by auto
  from Cons.prems obtain n where "name q = Str n" by auto
  with ns have "map name (q # qs) = map Str (n # ns)" by simp
  then show ?case by blast
qed

lemma findBestMatch_nonempty:
  assumes "products \<noteq> []" and "\<forall>q\<in>set products. \<exists>n. name q = Str n"
  shows "\<exists>p np. findBestMatch e (Str s) products = Inr (Some p) \<and> p \<in> set products
    \<and> name p = Str np
    \<and> (\<forall>q\<in>set products. \<forall>n. name q = Str n \<longrightarrow>
          compareTwoStrings e s n \<le> compareTwoStrings e s np)"
proof -
  let ?names = "map name products"
  from string_names [OF assms(2)] obtain ns where ns: "?names = map Str ns" ..
  then have len: "length ns = length products" by (metis length_map)
  let ?rs = "map (compareTwoStrings e s) ns"
  let ?b = "ss_bestMatchIndex ?rs"
  let ?i = "indexOf ?names (Str (ns ! ?b))"
  from assms(1) len have ne: "?rs \<noteq> []" by auto
  have b: "?b < length products"
    using ss_bestMatchIndex_max(1) [OF ne] len by simp
  have nth: "?names ! j = Str (ns ! j)" if "j < length products" for j
    using that len unfolding ns by simp
  from b nth have "Str (ns ! ?b) \<in> set ?names"
    by (metis length_map nth_mem)
  from indexOf_member [OF this]
  have i: "0 \<le> ?i" "?i < int (length products)" "?names ! nat ?i = Str (ns ! ?b)" by simp_all
  let ?p = "products ! nat ?i"
  from i have ni: "nat ?i < length products" by simp
  have th: "those (map as_string ?names) = Some ns"
    unfolding ns by (rule those_as_string_Str)
  have res: "findBestMatch e (Str s) products = Inr (Some ?p)"
    using assms(1) i(1,2) th
    by (simp add: findBestMatch_def ss_findBestMatch_def Let_def at_or_null_def)
  have mem: "?p \<in> set products" using ni by simp
  have name_p: "name ?p = Str (ns ! ?b)" using i(3) ni by simp
  have "compareTwoStrings e s n \<le> compareTwoStrings e s (ns ! ?b)"
    if "q \<in> set products" "name q = Str n" for q n
  proof -
    from that(1) obtain j where j: "j < length products" "products ! j = q"
      by (auto simp: in_set_conv_nth)
    with nth [OF j(1)] that(2) have n: "n = ns ! j" by simp
    have "?rs ! j \<le> ?rs ! ?b"
      using ss_bestMatchIndex_max(2) [OF ne, of j] j(1) len by simp
    with j(1) b len n show ?thesis by simp
  qed
  with res mem name_p show ?thesis by blast
qed

lemma findBestMatch_term_not_string:
  assumes "products \<noteq> []" and "\<forall>s. searchTerm \<noteq> Str s"
  shows "findBestMatch e searchTerm products = Inl BadArguments"
  using assms by (cases searchTerm) (simp_all add: findBestMatch_def ss_findBestMatch_def)

lemma findBestMatch_name_not_string:
  assumes "q \<in> set products" and "\<forall>n. name q \<noteq> Str n"
  shows "\<exists>err. findBestMatch e searchTerm products = Inl err"
proof -
  from assms(1) have ne: "products \<noteq> []" by auto
  from assms(2) have "as_string (name q) = None"
    by (cases "name q") (simp_all add: as_string_def)
  with assms(1) have th: "those (map as_string (map name products)) = None"
    by (intro those_as_string_None [of "name q"]) simp_all
  show ?thesis
  proof (cases "\<exists>s. searchTerm = Str s")
    case True
    then obtain s where "searchTerm = Str s" ..
    with ne th show ?thesis
      by (simp add: findBestMatch_def ss_findBestMatch_def Let_def split: option.splits)
  next
    case False
    with findBestMatch_term_not_string [OF ne] show ?thesis by blast
  qed
qed

text \<open>
  Claim C4, as the code has it. On the empty sequence \<open>findBestMatch\<close> answers \<open>null\<close>
  for any query. On a non-empty sequence whose names are all strings and for a query that
  is a string, it answers a listing of that sequence whose name no other listing's name
  beats in similarity, whatever the similarity function rates (so with no threshold on
  the rating). On a non-empty sequence it throws for a query that is not a string, and
  for any query when a listing's name is not a string.
\<close>

theorem findBestMatch_selects_member:
  "findBestMatch e searchTerm [] = Inr None
   \<and> (products \<noteq> [] \<and> (\<forall>q\<in>set products. \<exists>n. name q = Str n) \<longrightarrow>
        (\<exists>p np. findBestMatch e (Str s) products = Inr (Some p) \<and> p \<in> set products
           \<and> name p = Str np
           \<and> (\<forall>q\<in>set products. \<forall>n. name q = Str n \<longrightarrow>
                 compareTwoStrings e s n \<le> compareTwoStrings e s np)))
   \<and> (products \<noteq> [] \<and> (\<forall>s'. searchTerm \<noteq> Str s') \<longrightarrow>
        findBestMatch e searchTerm products = Inl BadArguments)
   \<and> ((\<exists>q\<in>set products. \<forall>n. name q \<noteq> Str n) \<longrightarrow>
        (\<exists>err. findBestMatch e searchTerm products = Inl err))"
proof (intro conjI impI)
  show "findBestMatch e searchTerm [] = Inr None" by (simp add: findBestMatch_def)
next
  assume "products \<noteq> [] \<and> (\<forall>q\<in>set products. \<exists>n. name q = Str n)"
  then show "\<exists>p np. findBestMatch e (Str s) products = Inr (Some p) \<and> p \<in> set products
      \<and> name p = Str np
      \<and> (\<forall>q\<in>set products. \<forall>n. name q = Str n \<longrightarrow>
            compareTwoStrings e s n \<le> compareTwoStrings e s np)"
    using findBestMatch_nonempty by blast
next
  assume "products \<noteq> [] \<and> (\<forall>s'. searchTerm \<noteq> Str s')"
  then show "findBestMatch e searchTerm products = Inl BadArguments"
    using findBestMatch_term_not_string by blast
next
  assume "\<exists>q\<in>set products. \<forall>n. name q \<noteq> Str n"
  then show "\<exists>err. findBestMatch e searchTerm products = Inl err"
    using findBestMatch_name_not_string by blast
qed

text \<open>
  The claim as the specification words it, for any query term, does not hold: for the
  number 16 as the query and a sequence of one listing the selection throws.
\<close>

theorem findBestMatch_any_term_counterexample:
  "findBestMatch (demo_env ax_always_throttled no_chat Map.empty) (Num 16)
     [demo_listing ''Kingston Fury 16GB'' 30000] = Inl BadArguments
   \<and> \<not> (\<forall>e searchTerm products. products \<noteq> [] \<longrightarrow>
          (\<exists>p. findBestMatch e searchTerm products = Inr (Some p) \<and> p \<in> set products))"
proof -
  let ?e = "demo_env ax_always_throttled no_chat Map.empty"
  let ?ps = "[demo_listing ''Kingston Fury 16GB'' 30000]"
  have t: "findBestMatch ?e (Num 16) ?ps = Inl BadArguments"
    by (rule findBestMatch_term_not_string) simp_all
  have "\<not> (\<forall>e searchTerm products. products \<noteq> [] \<longrightarrow>
          (\<exists>p. findBestMatch e searchTerm products = Inr (Some p) \<and> p \<in> set products))"
  proof
    assume "\<forall>e searchTerm products. products \<noteq> [] \<longrightarrow>
          (\<exists>p. findBestMatch e searchTerm products = Inr (Some p) \<and> p \<in> set products)"
    then have "?ps \<noteq> [] \<longrightarrow>
        (\<exists>p. findBestMatch ?e (Num 16) ?ps = Inr (Some p) \<and> p \<in> set ?ps)"
      by blast
    with t show False by simp
  qed
  with t show ?thesis by blast
qed

theorem findBestMatch_selects_member_witness:
  "findBestMatch (demo_env ax_always_throttled no_chat Map.empty) (Str ''RTX 3060'')
     [demo_listing ''GTX 1660'' 150000, demo_listing ''RTX 3060'' 200000]
   = Inr (Some (demo_listing ''RTX 3060'' 200000))
   \<and> findBestMatch (demo_env ax_always_throttled no_chat Map.empty) (Num 16) [] = Inr None
   \<and> findBestMatch (demo_env ax_always_throttled no_chat Map.empty) (Num 16)
       [demo_listing ''GTX 1660'' 150000, demo_listing ''RTX 3060'' 200000]
     = Inl BadArguments
   \<and> (\<exists>err. findBestMatch (demo_env ax_always_throttled no_chat Map.empty) (Str ''RTX 3060'')
       [demo_listing ''GTX 1660'' 150000, (demo_listing ''RTX 3060'' 200000)\<lparr>name := Undefined\<rparr>]
     = Inl err)"
proof -
  let ?e = "demo_env ax_always_throttled no_chat Map.empty"
  let ?ps = "[demo_listing ''GTX 1660'' 150000, demo_listing ''RTX 3060'' 200000]"
  let ?qs = "[demo_listing ''GTX 1660'' 150000,
      (demo_listing ''RTX 3060'' 200000)\<lparr>name := Undefined\<rparr>]"
  note T = findBestMatch_selects_member
    [where e = ?e and searchTerm = "Num 16" and products = ?ps and s = "''RTX 3060''"]
  note U = findBestMatch_selects_member
    [where e = ?e and searchTerm = "Str ''RTX 3060''" and products = ?qs and s = "''RTX 3060''"]
  have strings: "?ps \<noteq> [] \<and> (\<forall>q\<in>set ?ps. \<exists>n. name q = Str n)"
    by (simp add: demo_listing_def)
  from T [THEN conjunct2, THEN conjunct1, THEN mp, OF strings]
  obtain p np where p: "findBestMatch ?e (Str ''RTX 3060'') ?ps = Inr (Some p)" "p \<in> set ?ps"
    "name p = Str np"
    "\<forall>q\<in>set ?ps. \<forall>n. name q = Str n \<longrightarrow>
        compareTwoStrings ?e ''RTX 3060'' n \<le> compareTwoStrings ?e ''RTX 3060'' np"
    by blast
  have "name (demo_listing ''RTX 3060'' 200000) = Str ''RTX 3060''"
    by (simp add: demo_listing_def)
  with p(4) have "compareTwoStrings ?e ''RTX 3060'' ''RTX 3060''
      \<le> compareTwoStrings ?e ''RTX 3060'' np"
    by simp
  then have "np = ''RTX 3060''"
    by (simp add: demo_env_def split: if_splits)
  with p(2,3) have "p = demo_listing ''RTX 3060'' 200000"
    by (auto simp: demo_listing_def)
  with p(1) have one: "findBestMatch ?e (Str ''RTX 3060'') ?ps
      = Inr (Some (demo_listing ''RTX 3060'' 200000))"
    by simp
  have two: "findBestMatch ?e (Num 16) [] = Inr None"
    by (rule findBestMatch_selects_member [where e = ?e and searchTerm = "Num 16", THEN conjunct1])
  have "?ps \<noteq> [] \<and> (\<forall>s'. Num 16 \<noteq> Str s')" by simp
  then have three: "findBestMatch ?e (Num 16) ?ps = Inl BadArguments"
    by (rule T [THEN conjunct2, THEN conjunct2, THEN conjunct1, THEN mp])
  have "\<exists>q\<in>set ?qs. \<forall>n. name q \<noteq> Str n" by simp
  then have four: "\<exists>err. findBestMatch ?e (Str ''RTX 3060'') ?qs = Inl err"
    by (rule U [THEN conjunct2, THEN conjunct2, THEN conjunct2, THEN mp])
  from one two three four show ?thesis by blast
qed

section \<open>Objects and the merge\<close>

lemma map_of_own_replace:
  "map_of (own_replace k v obj) k'
     = (if k' = k \<and> k \<in> fst ` set obj then Some v else map_of obj k')"
  by (induction obj) (auto simp: rev_image_eqI)

lemma map_of_own_insert:
  "k \<notin> fst ` set obj \<Longrightarrow>
   map_of (own_insert k v obj) k' = (if k' = k then Some v else map_of obj k')"
  by (induction obj) (auto split: option.splits)

lemma map_of_own_update:
  "map_of (own_update k v obj) k' = (if k' = k then Some v else map_of obj k')"
  by (simp add: own_update_def map_of_own_replace map_of_own_insert)

lemma map_of_obj_set:
  "map_of (obj_set obj k v) k' =
     (if k' = k \<and> k \<noteq> ''__proto__'' then Some v else map_of obj k')"
  by (simp add: obj_set_def map_of_own_update)



lemma obj_set_index_first:
  "obj_set [(''CPU'', a), (''GPU'', b)] ''1'' c = [(''1'', c), (''CPU'', a), (''GPU'', b)]"
  "obj_set [(''1'', c), (''CPU'', a)] ''0'' d = [(''0'', d), (''1'', c), (''CPU'', a)]"
  "obj_set [(''1'', c), (''CPU'', a)] ''01'' d = [(''1'', c), (''CPU'', a), (''01'', d)]"
  "obj_set [(''1'', c), (''CPU'', a)] ''CPU'' d = [(''1'', c), (''CPU'', d)]"
  by (simp_all add: obj_set_def own_update_def array_index_def digit_of_def)

lemma merge_products_Nil [simp]: "merge_products acc [] = acc"
  by (simp add: merge_products_def)

lemma merge_products_Cons [simp]:
  "merge_products acc (kp # kps) =
     merge_products (case snd kp of None \<Rightarrow> acc | Some product \<Rightarrow> obj_set acc (fst kp) product) kps"
  by (simp add: merge_products_def)

lemma merge_products_untouched:
  "(\<And>p. (k, Some p) \<notin> set kps) \<Longrightarrow> map_of (merge_products acc kps) k = map_of acc k"
proof (induction kps arbitrary: acc)
  case Nil
  then show ?case by simp
next
  case (Cons kp kps)
  have tail: "\<And>p. (k, Some p) \<notin> set kps" using Cons.prems by auto
  show ?case
  proof (cases "snd kp")
    case None
    with Cons.IH [OF tail] show ?thesis by simp
  next
    case (Some p)
    with Cons.prems [of p] have "fst kp \<noteq> k" by (cases kp) auto
    with Some Cons.IH [OF tail] show ?thesis by (simp add: map_of_obj_set)
  qed
qed

lemma merge_products_proto:
  "map_of (merge_products acc kps) ''__proto__'' = map_of acc ''__proto__''"
proof (induction kps arbitrary: acc)
  case Nil
  then show ?case by simp
next
  case (Cons kp kps)
  then show ?case by (cases "snd kp") (auto simp: map_of_obj_set)
qed

lemma merge_products_keeps:
  "map_of acc k = Some p \<Longrightarrow> \<exists>p'. map_of (merge_products acc kps) k = Some p'"
proof (induction kps arbitrary: acc p)
  case Nil
  then show ?case by simp
next
  case (Cons kp kps)
  show ?case
  proof (cases "snd kp")
    case None
    with Cons show ?thesis by simp
  next
    case (Some q)
    from Cons.prems have "\<exists>p'. map_of (obj_set acc (fst kp) q) k = Some p'"
      by (simp add: map_of_obj_set)
    then obtain p' where "map_of (obj_set acc (fst kp) q) k = Some p'" ..
    from Cons.IH [OF this] Some show ?thesis by simp
  qed
qed








section \<open>The acceptance check in doubles\<close>

lemma powi2_pos [simp]: "0 < (2::rat) powi k"
  by (simp add: power_int_def)

lemma powi2_Suc: "(2::rat) powi (k + 1) = 2 * 2 powi k"
  by (simp add: power_int_add)

lemma powi2_diff: "(2::rat) powi (a - b) = 2 powi a / 2 powi b"
  by (rule power_int_diff) simp

lemma powi2_mono: "a \<le> b \<Longrightarrow> (2::rat) powi a \<le> 2 powi b"
  by (rule power_int_increasing) simp_all

lemma powi2_less_iff: "(2::rat) powi a < 2 powi b \<longleftrightarrow> a < b"
  by (meson linorder_not_le powi2_mono power_int_strict_increasing one_less_numeral_iff semiring_norm(76))

lemma expo_bounds:
  assumes "0 < x"
  shows "2 powi (expo x) \<le> x" and "x < 2 powi (expo x + 1)"
proof -
  obtain a b where q: "quotient_of x = (a, b)" by (cases "quotient_of x")
  then have b: "0 < b" and x: "x = of_int a / of_int b"
    using quotient_of_denom_pos quotient_of_div by blast+
  with assms have a: "0 < a" by (simp add: zero_less_divide_iff)
  let ?e0 = "bitlen a - bitlen b"
  from bitlen_bounds [OF a] bitlen_bounds [OF b]
  have ba: "2 ^ nat (bitlen a - 1) \<le> a" "a < 2 ^ nat (bitlen a)"
    and bb: "2 ^ nat (bitlen b - 1) \<le> b" "b < 2 ^ nat (bitlen b)" by simp_all
  have la: "1 \<le> bitlen a" and lb: "1 \<le> bitlen b"
    using a b bitlen_eq_zero_iff [of a] bitlen_eq_zero_iff [of b] bitlen_nonneg [of a] bitlen_nonneg [of b]
    by linarith+
  have ra: "(2::rat) powi (bitlen a - 1) \<le> of_int a" "of_int a < (2::rat) powi (bitlen a)"
  proof -
    have "(2::rat) powi (bitlen a - 1) = of_int (2 ^ nat (bitlen a - 1))"
      using la by (simp add: power_int_def)
    also have "\<dots> \<le> of_int a" using ba(1) by (simp only: of_int_le_iff)
    finally show "(2::rat) powi (bitlen a - 1) \<le> of_int a" .
    have "of_int a < (of_int (2 ^ nat (bitlen a)) :: rat)" using ba(2) by (simp only: of_int_less_iff)
    also have "\<dots> = 2 powi (bitlen a)" using la by (simp add: power_int_def)
    finally show "of_int a < (2::rat) powi (bitlen a)" .
  qed
  have rb: "(2::rat) powi (bitlen b - 1) \<le> of_int b" "of_int b < (2::rat) powi (bitlen b)"
  proof -
    have "(2::rat) powi (bitlen b - 1) = of_int (2 ^ nat (bitlen b - 1))"
      using lb by (simp add: power_int_def)
    also have "\<dots> \<le> of_int b" using bb(1) by (simp only: of_int_le_iff)
    finally show "(2::rat) powi (bitlen b - 1) \<le> of_int b" .
    have "of_int b < (of_int (2 ^ nat (bitlen b)) :: rat)" using bb(2) by (simp only: of_int_less_iff)
    also have "\<dots> = 2 powi (bitlen b)" using lb by (simp add: power_int_def)
    finally show "of_int b < (2::rat) powi (bitlen b)" .
  qed
  have bpos: "(0::rat) < of_int b" using b by simp
  have up: "x < 2 powi (?e0 + 1)"
  proof -
    have "of_int a * 2 powi (bitlen b - 1) < (2::rat) powi (bitlen a) * of_int b"
      using ra(2) rb(1) bpos
      by (meson less_le_trans mult_le_cancel_left_pos mult_strict_right_mono powi2_pos)
    then have "of_int a / of_int b < (2::rat) powi (bitlen a) / 2 powi (bitlen b - 1)"
      using bpos powi2_pos [of "bitlen b - 1"] by (simp add: field_simps)
    moreover have "(2::rat) powi (?e0 + 1) = 2 powi (bitlen a) / 2 powi (bitlen b - 1)"
    proof -
      have "?e0 + 1 = bitlen a - (bitlen b - 1)" by simp
      then show ?thesis by (simp only: powi2_diff)
    qed
    ultimately show ?thesis unfolding x by simp
  qed
  have low: "2 powi (?e0 - 1) \<le> x"
  proof -
    have "(2::rat) powi (bitlen a - 1) * of_int b \<le> of_int a * of_int b"
      using ra(1) bpos by (simp add: mult_right_mono)
    also have "\<dots> \<le> of_int a * 2 powi (bitlen b)"
      using rb(2) a by (simp add: mult_left_mono)
    finally have "(2::rat) powi (bitlen a - 1) * of_int b \<le> of_int a * 2 powi (bitlen b)" .
    then have "(2::rat) powi (bitlen a - 1) / 2 powi (bitlen b) \<le> of_int a / of_int b"
      using bpos powi2_pos [of "bitlen b"] by (simp add: field_simps)
    moreover have "(2::rat) powi (?e0 - 1) = 2 powi (bitlen a - 1) / 2 powi (bitlen b)"
    proof -
      have "?e0 - 1 = (bitlen a - 1) - bitlen b" by simp
      then show ?thesis by (simp only: powi2_diff)
    qed
    ultimately show ?thesis unfolding x by simp
  qed
  show "2 powi (expo x) \<le> x"
    using low q by (simp add: expo_def Let_def)
  show "x < 2 powi (expo x + 1)"
    using up q by (auto simp: expo_def Let_def not_le)
qed

lemma expo_unique:
  assumes "2 powi e \<le> x" "x < 2 powi (e + 1)"
  shows "expo x = e"
proof -
  have "0 < x" using assms(1) powi2_pos [of e] by linarith
  from expo_bounds [OF this] assms
  have "(2::rat) powi (expo x) < 2 powi (e + 1)" "(2::rat) powi e < 2 powi (expo x + 1)"
    by linarith+
  then show ?thesis by (simp add: powi2_less_iff)
qed


lemma round_even_cases:
  "round_even q = \<lfloor>q\<rfloor> \<or> round_even q = \<lfloor>q\<rfloor> + 1"
  by (simp add: round_even_def Let_def)

lemma round_even_of_int [simp]: "round_even (of_int n) = n"
  by (simp add: round_even_def)

lemma round_even_ge: "of_int m \<le> q \<Longrightarrow> m \<le> round_even q"
proof -
  assume "of_int m \<le> q"
  then have "m \<le> \<lfloor>q\<rfloor>" by (simp add: le_floor_iff)
  with round_even_cases [of q] show ?thesis by linarith
qed

lemma round_even_le: "q \<le> of_int m \<Longrightarrow> round_even q \<le> m"
proof -
  assume a: "q \<le> of_int m"
  then have f: "\<lfloor>q\<rfloor> \<le> m" by (metis floor_mono floor_of_int)
  show ?thesis
  proof (cases "\<lfloor>q\<rfloor> = m")
    case True
    with a have "q = of_int m" by (metis of_int_floor_le order_antisym)
    then show ?thesis by simp
  next
    case False
    with f round_even_cases [of q] show ?thesis by linarith
  qed
qed

lemma round_even_le_half:
  assumes "q \<le> of_int m + 1 / 2" "even m"
  shows "round_even q \<le> m"
proof -
  have "\<lfloor>q\<rfloor> < m + 1" using assms(1) by (subst floor_less_iff) simp
  then have f: "\<lfloor>q\<rfloor> \<le> m" by simp
  show ?thesis
  proof (cases "\<lfloor>q\<rfloor> = m")
    case True
    with assms have "q - of_int \<lfloor>q\<rfloor> \<le> 1 / 2" by simp
    with True assms(2) show ?thesis by (simp add: round_even_def Let_def)
  next
    case False
    with f round_even_cases [of q] show ?thesis by linarith
  qed
qed

lemma round_even_gt_half:
  assumes "of_int m + 1 / 2 < q"
  shows "m + 1 \<le> round_even q"
proof -
  have "of_int m \<le> q" using assms by simp
  then have f: "m \<le> \<lfloor>q\<rfloor>" by (simp add: le_floor_iff)
  show ?thesis
  proof (cases "\<lfloor>q\<rfloor> = m")
    case True
    with assms have "1 / 2 < q - of_int \<lfloor>q\<rfloor>" by simp
    with True show ?thesis by (simp add: round_even_def Let_def)
  next
    case False
    with f round_even_cases [of q] show ?thesis by linarith
  qed
qed

lemma round_even_eq:
  assumes "of_int m - 1 / 2 < q" "q \<le> of_int m + 1 / 2" "even m"
  shows "round_even q = m"
proof -
  have "of_int (m - 1) + 1 / 2 < q" using assms(1) by simp
  from round_even_gt_half [OF this] round_even_le_half [OF assms(2,3)]
  show ?thesis by simp
qed

lemma fl_binade:
  assumes "2 powi e \<le> x" "x < 2 powi (e + 1)" "- 1022 \<le> e"
  shows "fl x = of_int (round_even (x / 2 powi (e - 52))) * 2 powi (e - 52)"
  using expo_unique [OF assms(1,2)] assms(3) by (simp add: fl_def max_def)

lemma scaled_bounds:
  fixes x :: rat
  assumes "2 powi e \<le> x" "x < 2 powi (e + 1)"
  shows "of_int (2 ^ 52) \<le> x / 2 powi (e - 52)" and "x / 2 powi (e - 52) \<le> of_int (2 ^ 53)"
proof -
  define y where "y = x / 2 powi e"
  have p: "(0::rat) < 2 powi e" by simp
  have eq: "x / 2 powi (e - 52) = y * 2 ^ 52"
    unfolding y_def powi2_diff by simp
  have "1 \<le> y" unfolding y_def using assms(1) p by (simp add: pos_le_divide_eq)
  then have "1 * 2 ^ 52 \<le> y * 2 ^ 52" by (rule mult_right_mono) simp
  then show "of_int (2 ^ 52) \<le> x / 2 powi (e - 52)" unfolding eq by simp
  have "y \<le> 2" unfolding y_def using assms(2) p
    by (simp add: pos_divide_le_eq powi2_Suc mult.commute)
  then have "y * 2 ^ 52 \<le> 2 * 2 ^ 52" by (rule mult_right_mono) simp
  then show "x / 2 powi (e - 52) \<le> of_int (2 ^ 53)" unfolding eq by simp
qed

lemma fl_lower:
  assumes "2 powi e \<le> x" "x < 2 powi (e + 1)" "- 1022 \<le> e"
  shows "2 powi e \<le> fl x"
proof -
  have "2 ^ 52 \<le> round_even (x / 2 powi (e - 52))"
    by (rule round_even_ge) (rule scaled_bounds(1) [OF assms(1,2)])
  then have "(of_int (2 ^ 52) :: rat) \<le> of_int (round_even (x / 2 powi (e - 52)))"
    by (simp only: of_int_le_iff)
  then have "of_int (2 ^ 52) * 2 powi (e - 52) \<le> fl x"
    unfolding fl_binade [OF assms] by (simp add: mult_right_mono)
  moreover have "(of_int (2 ^ 52) :: rat) * 2 powi (e - 52) = 2 powi e"
    by (simp add: powi2_diff)
  ultimately show ?thesis by simp
qed

lemma fl_upper:
  assumes "2 powi e \<le> x" "x < 2 powi (e + 1)" "- 1022 \<le> e"
  shows "fl x \<le> 2 powi (e + 1)"
proof -
  have "round_even (x / 2 powi (e - 52)) \<le> 2 ^ 53"
    by (rule round_even_le) (rule scaled_bounds(2) [OF assms(1,2)])
  then have "(of_int (round_even (x / 2 powi (e - 52))) :: rat) \<le> of_int (2 ^ 53)"
    by (simp only: of_int_le_iff)
  then have "fl x \<le> of_int (2 ^ 53) * 2 powi (e - 52)"
    unfolding fl_binade [OF assms] by (simp add: mult_right_mono)
  moreover have "(of_int (2 ^ 53) :: rat) * 2 powi (e - 52) = 2 powi (e + 1)"
    by (simp add: powi2_diff powi2_Suc)
  ultimately show ?thesis by simp
qed


lemma fl_of_int:
  assumes "0 < n" "n < 2 ^ 53"
  shows "fl (of_int n) = of_int n"
proof -
  let ?x = "of_int n :: rat"
  have x: "0 < ?x" using assms(1) by simp
  note b = expo_bounds [OF x]
  have "(2::rat) powi 0 \<le> ?x" using assms(1) by simp
  with b(2) have "(2::rat) powi 0 < 2 powi (expo ?x + 1)" by linarith
  then have e0: "0 \<le> expo ?x" by (simp only: powi2_less_iff)
  have "?x < 2 powi 53" using assms(2) by (simp flip: of_int_less_iff)
  with b(1) have "(2::rat) powi (expo ?x) < 2 powi 53" by linarith
  then have e1: "expo ?x \<le> 52" by (simp only: powi2_less_iff)
  define k where "k = nat (52 - expo ?x)"
  have u: "(2::rat) powi (expo ?x - 52) = 1 / 2 ^ k"
    using e1 by (simp add: power_int_def k_def inverse_eq_divide power_one_over)
  have "?x / 2 powi (expo ?x - 52) = of_int (n * 2 ^ k)"
    unfolding u by simp
  then have "round_even (?x / 2 powi (expo ?x - 52)) = n * 2 ^ k"
    by (simp only: round_even_of_int)
  then have "fl ?x = of_int (n * 2 ^ k) * (1 / 2 ^ k)"
    using e0 u by (simp add: fl_def max_def)
  then show ?thesis by simp
qed

lemma to_double_exact:
  assumes "\<bar>n\<bar> < 2 ^ 53"
  shows "to_double n = Fin (of_int n)"
proof -
  consider "n = 0" | "0 < n" | "n < 0" by linarith
  then show ?thesis
  proof cases
    case 1
    then show ?thesis by (simp add: to_double_def round_double_def)
  next
    case 2
    with assms have f: "fl (of_int n) = of_int n" by (intro fl_of_int) simp_all
    have "(of_int n :: rat) < 2 ^ 53" using assms 2 by (simp flip: of_int_less_iff)
    also have "\<dots> \<le> 2 powi 1024" by simp
    finally have "\<not> 2 powi 1024 \<le> (of_int n :: rat)" by simp
    with 2 f show ?thesis by (simp add: to_double_def round_double_def)
  next
    case 3
    with assms have f: "fl (of_int (- n)) = of_int (- n)" by (intro fl_of_int) simp_all
    have "(of_int (- n) :: rat) < 2 ^ 53" using assms 3 by (simp flip: of_int_less_iff)
    also have "\<dots> \<le> 2 powi 1024" by simp
    finally have "\<not> 2 powi 1024 \<le> (of_int (- n) :: rat)" by simp
    with 3 f show ?thesis by (simp add: to_double_def round_double_def)
  qed
qed

lemma tenth_double: "round_double (1 / 10) = Fin (7205759403792794 / 2 ^ 56)"
proof -
  have b: "(2::rat) powi (- 4) \<le> 1 / 10" "(1 / 10 :: rat) < 2 powi (- 4 + 1)"
    by (simp_all add: power_int_minus_divide)
  have u: "(2::rat) powi (- 4 - 52) = 1 / 2 ^ 56"
    by (simp add: power_int_minus_divide)
  have "round_even (1 / 10 / (1 / 2 ^ 56)) = 7205759403792794"
    by (rule round_even_eq) simp_all
  with fl_binade [OF b] u have "fl (1 / 10) = 7205759403792794 / 2 ^ 56"
    by simp
  then show ?thesis by (simp add: round_double_def power_int_minus_divide)
qed


lemma expo_normal:
  assumes "2 powi (- 1022) \<le> q"
  shows "- 1022 \<le> expo q"
proof -
  have "0 < q" using assms powi2_pos [of "- 1022"] by linarith
  from expo_bounds(2) [OF this] assms have "(2::rat) powi (- 1022) < 2 powi (expo q + 1)"
    by linarith
  then have "- 1022 < expo q + 1" by (simp only: powi2_less_iff)
  then show ?thesis by simp
qed

lemma fl_small:
  assumes "2 powi (- 1022) \<le> q" "q < 2 powi k"
  shows "fl q \<le> 2 powi k"
proof -
  have q: "0 < q" using assms(1) powi2_pos [of "- 1022"] by linarith
  note b = expo_bounds [OF q]
  from b(1) assms(2) have "(2::rat) powi (expo q) < 2 powi k" by linarith
  then have "expo q < k" by (simp only: powi2_less_iff)
  then have "expo q + 1 \<le> k" by simp
  then have "(2::rat) powi (expo q + 1) \<le> 2 powi k" by (rule powi2_mono)
  with fl_upper [OF b expo_normal [OF assms(1)]] show ?thesis by linarith
qed

lemma fl_large:
  assumes "2 powi (- 1022) \<le> q" "2 powi k \<le> q"
  shows "2 powi k \<le> fl q"
proof -
  have q: "0 < q" using assms(1) powi2_pos [of "- 1022"] by linarith
  note b = expo_bounds [OF q]
  from b(2) assms(2) have "(2::rat) powi k < 2 powi (expo q + 1)" by linarith
  then have "k < expo q + 1" by (simp only: powi2_less_iff)
  then have "k \<le> expo q" by simp
  then have "(2::rat) powi k \<le> 2 powi (expo q)" by (rule powi2_mono)
  with fl_lower [OF b expo_normal [OF assms(1)]] show ?thesis by linarith
qed

lemma fl_binade_tenth:
  assumes "1 / 16 \<le> q" "q < 1 / 8"
  shows "fl q = of_int (round_even (q * 2 ^ 56)) / 2 ^ 56"
proof -
  have b: "(2::rat) powi (- 4) \<le> q" "q < 2 powi (- 4 + 1)"
    using assms by (simp_all add: power_int_minus_divide)
  have u: "(2::rat) powi (- 4 - 52) = 1 / 2 ^ 56"
    by (simp add: power_int_minus_divide)
  from fl_binade [OF b] u show ?thesis by simp
qed

lemma fl_tenth_le:
  assumes "2 powi (- 1022) \<le> q" "q * 2 ^ 57 \<le> 14411518807585589"
  shows "fl q \<le> 7205759403792794 / 2 ^ 56"
proof (cases "q < 1 / 16")
  case True
  then have "q < 2 powi (- 4)" by (simp add: power_int_minus_divide)
  from fl_small [OF assms(1) this] have "fl q \<le> 1 / 16" by (simp add: power_int_minus_divide)
  then show ?thesis by simp
next
  case False
  then have lo: "1 / 16 \<le> q" by simp
  from assms(2) have hi: "q < 1 / 8" by simp
  from assms(2) have "q * 2 ^ 56 \<le> of_int 7205759403792794 + 1 / 2" by simp
  then have "round_even (q * 2 ^ 56) \<le> 7205759403792794"
    by (rule round_even_le_half) simp
  then have "(of_int (round_even (q * 2 ^ 56)) :: rat) \<le> of_int 7205759403792794"
    by (simp only: of_int_le_iff)
  then show ?thesis unfolding fl_binade_tenth [OF lo hi]
    by (simp add: divide_right_mono)
qed

lemma fl_tenth_gt:
  assumes "2 powi (- 1022) \<le> q" "14411518807585589 < q * 2 ^ 57"
  shows "7205759403792794 / 2 ^ 56 < fl q"
proof (cases "q < 1 / 8")
  case False
  then have "2 powi (- 3) \<le> q" by (simp add: power_int_minus_divide)
  from fl_large [OF assms(1) this] have "1 / 8 \<le> fl q" by (simp add: power_int_minus_divide)
  then show ?thesis by simp
next
  case hi: True
  from assms(2) have lo: "1 / 16 \<le> q" by simp
  from assms(2) have "of_int 7205759403792794 + 1 / 2 < q * 2 ^ 56" by simp
  then have "7205759403792794 + 1 \<le> round_even (q * 2 ^ 56)"
    by (rule round_even_gt_half)
  then have "(of_int 7205759403792795 :: rat) \<le> of_int (round_even (q * 2 ^ 56))"
    by (simp only: of_int_le_iff)
  then have "7205759403792795 / 2 ^ 56 \<le> fl q" unfolding fl_binade_tenth [OF lo hi]
    by (simp add: divide_right_mono)
  then show ?thesis by simp
qed

lemma within_tolerance_safe:
  assumes "0 \<le> t" "t < 2 ^ 53" "0 < b" "b < 2 ^ 53"
  shows "within_tolerance t b = (2 ^ 57 * \<bar>t - b\<bar> \<le> 14411518807585589 * b)"
proof -
  define a where "a = \<bar>t - b\<bar>"
  have a53: "a < 2 ^ 53" and a0: "0 \<le> a" using assms by (simp_all add: a_def abs_if)
  have T: "to_double t = Fin (of_int t)" and B: "to_double b = Fin (of_int b)"
    using assms by (simp_all add: to_double_exact)
  have "dsub (to_double t) (to_double b) = to_double (t - b)"
    unfolding T B by (simp add: to_double_def)
  also have "\<dots> = Fin (of_int (t - b))"
    using a53 by (intro to_double_exact) (simp add: a_def)
  finally have num: "dabs (dsub (to_double t) (to_double b)) = Fin (of_int a)"
    by (simp add: a_def)
  have bq: "(0::rat) < of_int b" using assms(3) by simp
  show ?thesis
  proof (cases "a = 0")
    case True
    with num B bq assms(3) show ?thesis
      unfolding within_tolerance_def tenth_double
      by (simp add: round_double_def a_def)
  next
    case False
    with a0 have apos: "0 < a" by simp
    define q :: rat where "q = of_int a / of_int b"
    have qpos: "0 < q" using apos bq by (simp add: q_def)
    have "1 / 2 ^ 53 \<le> 1 / (of_int b :: rat)"
      using assms(3,4) by (simp add: frac_le flip: of_int_less_iff)
    also have "\<dots> \<le> q" unfolding q_def using apos bq
      by (simp add: divide_right_mono flip: of_int_le_iff)
    finally have q_lo: "1 / 2 ^ 53 \<le> q" .
    have "(2::rat) powi (- 1022) \<le> 2 powi (- 53)" by (rule powi2_mono) simp
    also have "\<dots> = 1 / 2 ^ 53" by (simp add: power_int_minus_divide)
    finally have normal: "2 powi (- 1022) \<le> q" using q_lo by linarith
    have "q \<le> of_int a" unfolding q_def using apos assms(3) bq
      by (simp add: pos_divide_le_eq flip: of_int_le_iff)
    also have "\<dots> < 2 ^ 53" using a53 by (simp flip: of_int_less_iff)
    finally have "q < 2 powi 53" by simp
    from fl_small [OF normal this] have "fl q \<le> 2 powi 53" .
    also have "(2::rat) powi 53 < 2 powi 1024" by (subst powi2_less_iff) simp
    finally have fin: "\<not> 2 powi 1024 \<le> fl q" by simp
    have div: "ddiv (Fin (of_int a)) (Fin (of_int b)) = Fin (fl q)"
      using bq qpos fin apos by (simp add: round_double_def q_def)
    have scaled: "(q * 2 ^ 57 \<le> 14411518807585589) = (2 ^ 57 * a \<le> 14411518807585589 * b)"
    proof -
      have "(q * 2 ^ 57 \<le> 14411518807585589)
          = (of_int a * 2 ^ 57 \<le> (14411518807585589 * of_int b :: rat))"
        unfolding q_def using bq by (simp add: pos_divide_le_eq field_simps)
      also have "\<dots> = ((of_int (2 ^ 57 * a) :: rat) \<le> of_int (14411518807585589 * b))"
        by (simp add: mult.commute)
      also have "\<dots> = (2 ^ 57 * a \<le> 14411518807585589 * b)"
        by (simp only: of_int_le_iff)
      finally show ?thesis .
    qed
    have "(fl q \<le> 7205759403792794 / 2 ^ 56) = (q * 2 ^ 57 \<le> 14411518807585589)"
      using fl_tenth_le [OF normal] fl_tenth_gt [OF normal] by (metis not_le)
    with num B div scaled show ?thesis
      unfolding within_tolerance_def tenth_double by (simp add: a_def)
  qed
qed


lemma dabs_cases: "dabs x = PInf \<or> dabs x = NaN \<or> (\<exists>a. 0 \<le> a \<and> dabs x = Fin a)"
  by (cases x) simp_all

lemma within_tolerance_zero: "\<not> within_tolerance t 0"
proof -
  have z: "to_double 0 = Fin 0" by (simp add: to_double_def round_double_def)
  show ?thesis
    unfolding within_tolerance_def z tenth_double
    using dabs_cases [of "dsub (to_double t) (Fin 0)"] by (auto split: if_splits)
qed


lemma within_tolerance_runs:
  "within_tolerance 500000 500000" "\<not> within_tolerance 500000 1000000"
  "within_tolerance 540000 500000" "\<not> within_tolerance 560000 500000"
  by (simp_all add: within_tolerance_safe)


section \<open>What a resolution leaves alone\<close>

lemma fetchWithRetry_frame:
  "fetchWithRetry e u w = (res, w') \<Longrightarrow>
   cache w' = cache w \<and> provider_log w' = provider_log w
   \<and> limiter_ready w' = limiter_ready w \<and> now w \<le> now w'
   \<and> requests w \<le> requests w' \<and> requests w' \<le> requests w + 5"
  using loop_frame_aux [of e u 5 5000 0 w res w'] by (simp add: fetchWithRetry_def)

lemma fetchProduct_try_frame:
  assumes "fetchProduct_try e key u w = (res, w')"
  shows "provider_log w' = provider_log w \<and> limiter_ready w' = limiter_ready w
    \<and> requests w \<le> requests w' \<and> requests w' \<le> requests w + 5"
proof -
  obtain r0 w0 where f: "fetchWithRetry e u w = (r0, w0)" by (cases "fetchWithRetry e u w")
  from fetchWithRetry_frame [OF f] assms f show ?thesis
    by (auto simp: fetchProduct_try_def split: sum.splits option.splits if_splits)
qed

lemma fetchProduct_body_frame:
  assumes "fetchProduct_body e t w = (res, w')"
  shows "provider_log w' = provider_log w \<and> limiter_ready w' = limiter_ready w
    \<and> requests w \<le> requests w' \<and> requests w' \<le> requests w + 5"
proof -
  let ?key = "''product:'' @ toString e t"
  let ?w1 = "w\<lparr>cache := snd (cache_get (cache w) ?key (now w))\<rparr>"
  show ?thesis
  proof (cases "fst (cache_get (cache w) ?key (now w))")
    case (Some v)
    with assms show ?thesis by (auto simp: fetchProduct_body_def Let_def)
  next
    case None
    show ?thesis
    proof (cases "encodeURIComponent e (toString e t)")
      case N: None
      with None assms show ?thesis by (auto simp: fetchProduct_body_def Let_def)
    next
      case (Some q)
      obtain r0 w0 where f: "fetchProduct_try e ?key (search_url q) ?w1 = (r0, w0)"
        by (cases "fetchProduct_try e ?key (search_url q) ?w1")
      from fetchProduct_try_frame [OF f] None Some assms f show ?thesis
        by (auto simp: fetchProduct_body_def Let_def split: sum.splits)
    qed
  qed
qed

lemma fetchProduct_frame:
  assumes "fetchProduct e t w = (res, w')"
  shows "provider_log w' = provider_log w
    \<and> requests w \<le> requests w' \<and> requests w' \<le> requests w + 5"
  using fetchProduct_body_frame [of e t _ res w'] assms
  by (fastforce simp: fetchProduct_def Let_def)

lemma resolve_try_frame:
  assumes "resolve_try e c w = (res, w')"
  shows "provider_log w' = provider_log w
    \<and> requests w \<le> requests w' \<and> requests w' \<le> requests w + 5"
proof -
  obtain r0 w0 where f: "fetchProduct e c w = (r0, w0)" by (cases "fetchProduct e c w")
  from fetchProduct_frame [OF f] assms f show ?thesis
    by (auto simp: resolve_try_def split: sum.splits)
qed

lemma resolve_initial_frame:
  assumes "resolve_initial e comps key w = (kp, w')"
  shows "fst kp = key \<and> provider_log w' = provider_log w
    \<and> requests w \<le> requests w' \<and> requests w' \<le> requests w + 5"
proof -
  obtain r0 w0 where f: "resolve_try e (js_get comps key) w = (r0, w0)"
    by (cases "resolve_try e (js_get comps key) w")
  from resolve_try_frame [OF f] assms f show ?thesis
    by (auto simp: resolve_initial_def split: sum.splits)
qed

lemma resolve_adjusted_not_string:
  "\<not> (\<exists>s. snd entry = Str s) \<Longrightarrow> resolve_adjusted e entry w = ((fst entry, None), w)"
  by (cases "snd entry") (simp_all add: resolve_adjusted_def)

lemma resolve_adjusted_frame:
  assumes "resolve_adjusted e entry w = (kp, w')"
  shows "fst kp = fst entry \<and> provider_log w' = provider_log w
    \<and> requests w \<le> requests w'
    \<and> requests w' \<le> requests w + (if (\<exists>s. snd entry = Str s) then 5 else 0)"
proof (cases "\<exists>s. snd entry = Str s")
  case True
  then obtain s where s: "snd entry = Str s" ..
  obtain r0 w0 where f: "resolve_try e (Str s) w = (r0, w0)"
    by (cases "resolve_try e (Str s) w")
  from resolve_try_frame [OF f] assms f s show ?thesis
    by (auto simp: resolve_adjusted_def split: sum.splits)
next
  case False
  with assms resolve_adjusted_not_string [OF False, of e w] show ?thesis by auto
qed

lemma promise_all_keys:
  "(\<And>x w. fst (fst (f x w)) = g x) \<Longrightarrow> map fst (fst (promise_all f xs w)) = map g xs"
proof (induction xs arbitrary: w)
  case Nil
  then show ?case by simp
next
  case (Cons x xs)
  obtain y w1 where s: "f x w = (y, w1)" by (cases "f x w")
  obtain ys w2 where r: "promise_all f xs w1 = (ys, w2)" by (cases "promise_all f xs w1")
  from Cons.IH [OF Cons.prems, where w = w1] Cons.prems [where x = x and w = w] s r show ?case by simp
qed

lemma promise_all_provider_log:
  "(\<And>x w. provider_log (snd (f x w)) = provider_log w) \<Longrightarrow>
   provider_log (snd (promise_all f xs w)) = provider_log w"
proof (induction xs arbitrary: w)
  case Nil
  then show ?case by simp
next
  case (Cons x xs)
  obtain y w1 where s: "f x w = (y, w1)" by (cases "f x w")
  obtain ys w2 where r: "promise_all f xs w1 = (ys, w2)" by (cases "promise_all f xs w1")
  from Cons.IH [OF Cons.prems, where w = w1] Cons.prems [where x = x and w = w] s r show ?case by simp
qed



lemma initial_batch_provider_log:
  "provider_log (snd (promise_all (resolve_initial e comps) keys w)) = provider_log w"
proof -
  have "provider_log (snd (resolve_initial e comps x w)) = provider_log w" for x w
    using resolve_initial_frame [of e comps x w "fst (resolve_initial e comps x w)"
        "snd (resolve_initial e comps x w)"]
    by simp
  from promise_all_provider_log [of "resolve_initial e comps", OF this] show ?thesis .
qed

lemma adjusted_batch_keys:
  "map fst (fst (promise_all (resolve_adjusted e) entries w)) = map fst entries"
proof -
  have "fst (fst (resolve_adjusted e x w)) = fst x" for x w
    using resolve_adjusted_frame [of e x w "fst (resolve_adjusted e x w)"
        "snd (resolve_adjusted e x w)"]
    by simp
  from promise_all_keys [of "resolve_adjusted e" fst, OF this] show ?thesis .
qed

lemma adjusted_batch_provider_log:
  "provider_log (snd (promise_all (resolve_adjusted e) entries w)) = provider_log w"
proof -
  have "provider_log (snd (resolve_adjusted e x w)) = provider_log w" for x w
    using resolve_adjusted_frame [of e x w "fst (resolve_adjusted e x w)"
        "snd (resolve_adjusted e x w)"]
    by simp
  from promise_all_provider_log [of "resolve_adjusted e", OF this] show ?thesis .
qed


section \<open>Runs of the concrete environments\<close>

lemmas demo_defs = demo_env_def demo_chat_def demo_parse_def demo_components_def ax_shop_def
  demo_request_def demo_world_def json_response_def demo_card_def demo_listing_def ax_no_gpu_def
  demo_components_extra_def ax_dear_def

lemmas run_defs = handler_def initial_phase_def call_provider_def Object_keys_def
  Object_entries_def requiredComponents_def resolve_initial_def resolve_try_def fetchProduct_def
  fetchProduct_body_def fetchProduct_try_def fetchWithRetry_def fetchWithRetry_loop.simps
  cache_get_def cache_set_def toString_def search_url_def card_to_product_def findBestMatch_def
  ss_findBestMatch_def ss_bestMatchIndex_def at_or_null_def js_get_def missingComponents_def
  productResponse_of_def availableProducts_def merge_products_def obj_set_def totalPrice_of_def
  within_tolerance_runs adjusted_phase_def resolve_adjusted_def Let_def stdTTL_def
  as_string_def own_update_def array_index_def digit_of_def

lemma run_initial:
  "initial_phase (demo_env ax (demo_chat ''A'' b) demo_parse) (demo_request bud) demo_world
   = (Inr (''A'', demo_components),
      demo_world\<lparr>now := 800, provider_log := [InitialPrompt ''gaming pc'' bud]\<rparr>)"
  by (simp add: demo_defs initial_phase_def call_provider_def Object_keys_def Object_entries_def
      requiredComponents_def)


lemma run_batch_no_gpu:
  "fst (promise_all (resolve_initial (demo_env (ax_no_gpu 62500) ch ps) demo_components)
         requiredComponents
         (demo_world\<lparr>now := 800, provider_log := l\<rparr>))
   = [(''CPU'', Some (demo_listing ''item'' 62500)), (''GPU'', None),
      (''Motherboard'', Some (demo_listing ''item'' 62500)),
      (''RAM'', Some (demo_listing ''item'' 62500)),
      (''PSU'', Some (demo_listing ''item'' 62500)),
      (''CPU Cooler'', Some (demo_listing ''item'' 62500)),
      (''FAN'', Some (demo_listing ''item'' 62500)),
      (''PC case'', Some (demo_listing ''item'' 62500))]"
  by (simp add: demo_defs run_defs)

lemma run_accepted:
  "\<exists>w. handler (demo_env (ax_shop 62500) (demo_chat ''A'' ''B'') demo_parse)
          (demo_request 500000) demo_world
        = (Send ''A'' (map (\<lambda>k. (k, demo_listing ''item'' 62500)) requiredComponents), w)
      \<and> provider_log w = [InitialPrompt ''gaming pc'' 500000] \<and> requests w = 8"
  by (simp add: demo_defs run_defs)

lemma run_adjusted:
  "\<exists>w. handler (demo_env (ax_no_gpu 62500) (demo_chat ''A'' ''B'') demo_parse)
          (demo_request 500000) demo_world
        = (Send ''B''
             [(''CPU'', demo_listing ''item'' 62500),
              (''Motherboard'', demo_listing ''item'' 62500),
              (''RAM'', demo_listing ''item'' 62500),
              (''PSU'', demo_listing ''item'' 62500),
              (''CPU Cooler'', demo_listing ''item'' 62500),
              (''FAN'', demo_listing ''item'' 62500),
              (''PC case'', demo_listing ''item'' 62500),
              (''GPU'', demo_listing ''item'' 62500)], w)
      \<and> provider_log w
          = [InitialPrompt ''gaming pc'' 500000,
             AdjustmentPrompt 437500 500000 [''GPU'']
               [(''CPU'', Str ''item'', 62500), (''Motherboard'', Str ''item'', 62500),
                (''RAM'', Str ''item'', 62500), (''PSU'', Str ''item'', 62500),
                (''CPU Cooler'', Str ''item'', 62500), (''FAN'', Str ''item'', 62500),
                (''PC case'', Str ''item'', 62500)]]
      \<and> requests w = 9"
  by (simp add: demo_defs run_defs)

lemma run_still_off_budget:
  "\<exists>w. handler (demo_env (ax_shop 62500) (demo_chat ''A'' ''B'') demo_parse)
          (demo_request 1000000) demo_world
        = (Send ''B'' (map (\<lambda>k. (k, demo_listing ''item'' 62500)) requiredComponents), w)
      \<and> length (provider_log w) = 2 \<and> requests w = 9"
  by (simp add: demo_defs run_defs)

lemma run_extra_key:
  "\<exists>w. handler (demo_env (ax_shop 62500) (demo_chat ''C'' ''B'') demo_parse)
          (demo_request 500000) demo_world
        = (Send ''C'' (map (\<lambda>k. (k, demo_listing ''item'' 62500)) requiredComponents), w)
      \<and> length (provider_log w) = 1 \<and> requests w = 8"
  by (simp add: demo_defs run_defs)

lemma run_adjusted_batch:
  "fst (promise_all (resolve_adjusted (demo_env (ax_shop 62500) ch ps)) demo_adjusted_entries
         (demo_world\<lparr>now := n, provider_log := l\<rparr>))
   = [(''GPU'', Some (demo_listing ''item'' 62500)), (''RAM'', None)]"
  by (simp add: demo_defs run_defs demo_adjusted_entries_def)



section \<open>The handler, step by step\<close>

lemma call_provider_log:
  "provider_log (snd (call_provider e r w)) = provider_log w @ [r]"
  by (simp add: call_provider_def)

lemma initial_phase_log:
  "provider_log (snd (initial_phase e req w))
     = provider_log w @ [InitialPrompt (prompt req) (budget req)]"
proof -
  obtain r0 w0 where c: "call_provider e (InitialPrompt (prompt req) (budget req)) w = (r0, w0)"
    by (cases "call_provider e (InitialPrompt (prompt req) (budget req)) w")
  with call_provider_log [of e "InitialPrompt (prompt req) (budget req)" w]
  have "provider_log w0 = provider_log w @ [InitialPrompt (prompt req) (budget req)]" by simp
  with c show ?thesis
    by (auto simp: initial_phase_def split: sum.splits option.splits)
qed

lemma adjusted_phase_log:
  "provider_log (snd (adjusted_phase e req q missing pr tot w))
     = provider_log w
       @ [AdjustmentPrompt tot (budget req) missing
            (map (\<lambda>kp. (fst kp, name (snd kp), price (snd kp))) pr)]"
proof -
  let ?r = "AdjustmentPrompt tot (budget req) missing
      (map (\<lambda>kp. (fst kp, name (snd kp), price (snd kp))) pr)"
  obtain r0 w0 where c: "call_provider e ?r w = (r0, w0)" by (cases "call_provider e ?r w")
  with call_provider_log [of e ?r w] have l: "provider_log w0 = provider_log w @ [?r]" by simp
  show ?thesis
  proof (cases r0)
    case (Inl err)
    with c l show ?thesis by (simp add: adjusted_phase_def)
  next
    case (Inr text2)
    show ?thesis
    proof (cases "JSON_parse e text2")
      case None
      with c l Inr show ?thesis by (simp add: adjusted_phase_def)
    next
      case (Some adj)
      show ?thesis
      proof (cases "Object_entries adj")
        case E: (Inl err)
        with c l Inr Some show ?thesis by (simp add: adjusted_phase_def)
      next
        case E: (Inr entries)
        let ?w2 = "w0\<lparr>now := max (now w0) q\<rparr>"
        have "provider_log (snd (promise_all (resolve_adjusted e) entries ?w2)) = provider_log ?w2"
          by (rule adjusted_batch_provider_log)
        with c l Inr Some E show ?thesis
          by (auto simp: adjusted_phase_def split: prod.splits)
      qed
    qed
  qed
qed

lemma adjusted_phase_sends:
  assumes "fst (call_provider e
             (AdjustmentPrompt tot (budget req) missing
                (map (\<lambda>kp. (fst kp, name (snd kp), price (snd kp))) pr)) w) = Inr text2"
    and "JSON_parse e text2 = Some adj" and "Object_entries adj = Inr entries"
  shows "adjusted_phase e req q missing pr tot w
    = (Send text2
         (merge_products pr
            (fst (promise_all (resolve_adjusted e) entries
               ((snd (call_provider e
                   (AdjustmentPrompt tot (budget req) missing
                      (map (\<lambda>kp. (fst kp, name (snd kp), price (snd kp))) pr)) w))
                \<lparr>now := max (now (snd (call_provider e
                   (AdjustmentPrompt tot (budget req) missing
                      (map (\<lambda>kp. (fst kp, name (snd kp), price (snd kp))) pr)) w))) q\<rparr>)))),
       snd (promise_all (resolve_adjusted e) entries
               ((snd (call_provider e
                   (AdjustmentPrompt tot (budget req) missing
                      (map (\<lambda>kp. (fst kp, name (snd kp), price (snd kp))) pr)) w))
                \<lparr>now := max (now (snd (call_provider e
                   (AdjustmentPrompt tot (budget req) missing
                      (map (\<lambda>kp. (fst kp, name (snd kp), price (snd kp))) pr)) w))) q\<rparr>)))"
proof -
  let ?r = "AdjustmentPrompt tot (budget req) missing
      (map (\<lambda>kp. (fst kp, name (snd kp), price (snd kp))) pr)"
  obtain r0 w0 where c: "call_provider e ?r w = (r0, w0)" by (cases "call_provider e ?r w")
  with assms show ?thesis
    by (simp add: adjusted_phase_def split: prod.splits)
qed

lemma handler_initial_fail:
  "initial_phase e req w = (Inl err, w1) \<Longrightarrow> handler e req w = (InternalServerError, w1)"
  by (simp add: handler_def)

lemma handler_accept:
  assumes "initial_phase e req w = (Inr (responseText, components), w1)"
    and "promise_all (resolve_initial e components) requiredComponents w1 = (fetched, w2)"
    and "missingComponents fetched = []"
    and "within_tolerance (totalPrice_of (productResponse_of fetched)) (budget req)"
  shows "handler e req w = (Send responseText (productResponse_of fetched), w2)"
  using assms by (simp add: handler_def Let_def)

lemma handler_adjust:
  assumes "initial_phase e req w = (Inr (responseText, components), w1)"
    and "promise_all (resolve_initial e components) requiredComponents w1 = (fetched, w2)"
    and "\<not> (missingComponents fetched = []
            \<and> within_tolerance (totalPrice_of (productResponse_of fetched)) (budget req))"
  shows "handler e req w
    = adjusted_phase e req (now w1 + 5000) (missingComponents fetched)
        (productResponse_of fetched) (totalPrice_of (productResponse_of fetched)) w2"
  using assms by (auto simp: handler_def Let_def)





text \<open>
  With a budget of zero the check fails whatever the total is, and the handler goes on to
  the ADJUSTED generation.
\<close>

lemma zero_budget_is_adjusted:
  assumes "initial_phase e req w = (Inr (responseText, components), w1)"
    and "budget req = 0"
  shows "length (provider_log (snd (handler e req w))) = length (provider_log w) + 2"
proof -
  let ?b = "promise_all (resolve_initial e components) requiredComponents w1"
  have b: "?b = (fst ?b, snd ?b)" by simp
  have n: "\<not> (missingComponents (fst ?b) = []
      \<and> within_tolerance (totalPrice_of (productResponse_of (fst ?b))) (budget req))"
    using assms(2) by (simp add: within_tolerance_zero)
  have l1: "provider_log w1 = provider_log w @ [InitialPrompt (prompt req) (budget req)]"
    using initial_phase_log [of e req w] assms(1) by simp
  have l2: "provider_log (snd ?b) = provider_log w1" by (rule initial_batch_provider_log)
  from handler_adjust [OF assms(1) b n] l1 l2 show ?thesis
    by (simp add: adjusted_phase_log)
qed

section \<open>What the batches resolve\<close>

lemma promise_all_length: "length (fst (promise_all f xs w)) = length xs"
proof (induction xs arbitrary: w)
  case Nil
  then show ?case by simp
next
  case (Cons x xs)
  obtain y w1 where s: "f x w = (y, w1)" by (cases "f x w")
  obtain ys w2 where r: "promise_all f xs w1 = (ys, w2)" by (cases "promise_all f xs w1")
  from Cons.IH [of w1] s r show ?case by simp
qed

lemma promise_all_nth:
  "i < length xs \<Longrightarrow> \<exists>w'. fst (promise_all f xs w) ! i = fst (f (xs ! i) w')"
proof (induction xs arbitrary: w i)
  case Nil
  then show ?case by simp
next
  case (Cons x xs)
  obtain y w1 where s: "f x w = (y, w1)" by (cases "f x w")
  obtain ys w2 where r: "promise_all f xs w1 = (ys, w2)" by (cases "promise_all f xs w1")
  show ?case
  proof (cases i)
    case 0
    with s r have "fst (promise_all f (x # xs) w) ! i = fst (f ((x # xs) ! i) w)" by simp
    then show ?thesis ..
  next
    case (Suc j)
    with Cons.prems have "j < length xs" by simp
    from Cons.IH [OF this, of w1] obtain w' where "fst (promise_all f xs w1) ! j = fst (f (xs ! j) w')" ..
    with s r Suc have "fst (promise_all f (x # xs) w) ! i = fst (f ((x # xs) ! i) w')" by simp
    then show ?thesis ..
  qed
qed



lemma adjusted_batch_member:
  assumes "kp \<in> set (fst (promise_all (resolve_adjusted e) entries w))"
  shows "\<exists>entry w'. entry \<in> set entries \<and> kp = fst (resolve_adjusted e entry w')"
proof -
  let ?ys = "fst (promise_all (resolve_adjusted e) entries w)"
  from assms obtain i where i: "i < length ?ys" "?ys ! i = kp"
    by (auto simp: in_set_conv_nth)
  then have il: "i < length entries" by (simp add: promise_all_length)
  from promise_all_nth [OF il, of "resolve_adjusted e" w]
  obtain w' where "?ys ! i = fst (resolve_adjusted e (entries ! i) w')" ..
  with i il show ?thesis by (metis nth_mem)
qed

lemma adjusted_batch_resolved_is_string:
  assumes "(k, Some p) \<in> set (fst (promise_all (resolve_adjusted e) entries w))"
  shows "\<exists>s. (k, Str s) \<in> set entries"
proof -
  from adjusted_batch_member [OF assms] obtain entry w'
    where en: "entry \<in> set entries" "(k, Some p) = fst (resolve_adjusted e entry w')"
    by blast
  have "\<exists>s. snd entry = Str s"
  proof (rule ccontr)
    assume "\<not> (\<exists>s. snd entry = Str s)"
    from resolve_adjusted_not_string [OF this, of e w'] en(2) show False by simp
  qed
  then obtain s where s: "snd entry = Str s" ..
  have "fst (fst (resolve_adjusted e entry w')) = fst entry"
    using resolve_adjusted_frame [of e entry w' "fst (resolve_adjusted e entry w')"
        "snd (resolve_adjusted e entry w')"]
    by simp
  with en(2) have "fst entry = k" by (metis fst_conv)
  with s en(1) have "(k, Str s) \<in> set entries" by (metis prod.collapse)
  then show ?thesis ..
qed





section \<open>Provider invocations and failures of the generation\<close>

lemma handler_log_cases:
  "(\<exists>err w1. initial_phase e req w = (Inl err, w1) \<and> handler e req w = (InternalServerError, w1)
       \<and> provider_log (snd (handler e req w))
           = provider_log w @ [InitialPrompt (prompt req) (budget req)])
   \<or> (\<exists>text comps w1. initial_phase e req w = (Inr (text, comps), w1)
       \<and> (missingComponents (fst (promise_all (resolve_initial e comps) requiredComponents w1)) = []
          \<and> within_tolerance
               (totalPrice_of (productResponse_of
                  (fst (promise_all (resolve_initial e comps) requiredComponents w1))))
               (budget req))
       \<and> provider_log (snd (handler e req w))
           = provider_log w @ [InitialPrompt (prompt req) (budget req)])
   \<or> (\<exists>text comps w1. initial_phase e req w = (Inr (text, comps), w1)
       \<and> \<not> (missingComponents (fst (promise_all (resolve_initial e comps) requiredComponents w1)) = []
          \<and> within_tolerance
               (totalPrice_of (productResponse_of
                  (fst (promise_all (resolve_initial e comps) requiredComponents w1))))
               (budget req))
       \<and> (\<exists>t m c. provider_log (snd (handler e req w))
           = provider_log w @ [InitialPrompt (prompt req) (budget req),
                               AdjustmentPrompt t (budget req) m c]))"
proof -
  obtain r0 w1 where i: "initial_phase e req w = (r0, w1)" by (cases "initial_phase e req w")
  with initial_phase_log [of e req w]
  have l1: "provider_log w1 = provider_log w @ [InitialPrompt (prompt req) (budget req)]" by simp
  show ?thesis
  proof (cases r0)
    case (Inl err)
    with i l1 handler_initial_fail [of e req w err w1] show ?thesis by simp
  next
    case (Inr tc)
    obtain rt comps where tc: "tc = (rt, comps)" by (cases tc)
    let ?b = "promise_all (resolve_initial e comps) requiredComponents w1"
    have b: "?b = (fst ?b, snd ?b)" by simp
    have l2: "provider_log (snd ?b) = provider_log w1" by (rule initial_batch_provider_log)
    from i Inr tc have i': "initial_phase e req w = (Inr (rt, comps), w1)" by simp
    show ?thesis
    proof (cases "missingComponents (fst ?b) = []
        \<and> within_tolerance (totalPrice_of (productResponse_of (fst ?b))) (budget req)")
      case True
      with handler_accept [OF i' b] l1 l2 i' show ?thesis by auto
    next
      case False
      from handler_adjust [OF i' b False]
      have "provider_log (snd (handler e req w))
          = provider_log w @ [InitialPrompt (prompt req) (budget req),
              AdjustmentPrompt (totalPrice_of (productResponse_of (fst ?b))) (budget req)
                (missingComponents (fst ?b))
                (map (\<lambda>kp. (fst kp, name (snd kp), price (snd kp))) (productResponse_of (fst ?b)))]"
        using l1 l2 by (simp add: adjusted_phase_log)
      then have "\<exists>t m c. provider_log (snd (handler e req w))
          = provider_log w @ [InitialPrompt (prompt req) (budget req),
                              AdjustmentPrompt t (budget req) m c]"
        by blast
      with False i' show ?thesis by blast
    qed
  qed
qed

text \<open>
  Claim C2. Whatever the oracles answer, one request appends to the provider's log either
  the INITIAL prompt alone or the INITIAL prompt and one ADJUSTED prompt, so at most two
  invocations; a second invocation means the initial generation passed and the initial
  bundle failed the acceptance check; and once the ADJUSTED answer parses to something with
  entries, the handler sends the adjusted text with the merged products after that single
  ADJUSTED invocation, with no condition on the merged bundle.
\<close>

theorem provider_invoked_at_most_twice:
  "(provider_log (snd (handler e req w)) = provider_log w @ [InitialPrompt (prompt req) (budget req)]
      \<or> (\<exists>t m c. provider_log (snd (handler e req w))
            = provider_log w @ [InitialPrompt (prompt req) (budget req),
                                AdjustmentPrompt t (budget req) m c]))
   \<and> length (provider_log (snd (handler e req w))) \<le> length (provider_log w) + 2
   \<and> (length (provider_log (snd (handler e req w))) = length (provider_log w) + 2 \<longrightarrow>
        (\<exists>text comps w1. initial_phase e req w = (Inr (text, comps), w1)
           \<and> \<not> (missingComponents
                   (fst (promise_all (resolve_initial e comps) requiredComponents w1)) = []
                 \<and> within_tolerance
                     (totalPrice_of (productResponse_of
                        (fst (promise_all (resolve_initial e comps) requiredComponents w1))))
                     (budget req))))
   \<and> (fst (call_provider e
              (AdjustmentPrompt tot (budget req) missing
                 (map (\<lambda>kp. (fst kp, name (snd kp), price (snd kp))) pr)) w') = Inr text2
        \<and> JSON_parse e text2 = Some adj \<and> Object_entries adj = Inr entries \<longrightarrow>
        (\<exists>fetched2 w3.
            adjusted_phase e req q missing pr tot w'
              = (Send text2 (merge_products pr fetched2), w3)
            \<and> map fst fetched2 = map fst entries
            \<and> provider_log w3
                = provider_log w'
                  @ [AdjustmentPrompt tot (budget req) missing
                       (map (\<lambda>kp. (fst kp, name (snd kp), price (snd kp))) pr)]))"
proof (intro conjI impI)
  from handler_log_cases [of e req w]
  show c1: "provider_log (snd (handler e req w))
        = provider_log w @ [InitialPrompt (prompt req) (budget req)]
      \<or> (\<exists>t m c. provider_log (snd (handler e req w))
            = provider_log w @ [InitialPrompt (prompt req) (budget req),
                                AdjustmentPrompt t (budget req) m c])"
    by blast
  from c1 show "length (provider_log (snd (handler e req w))) \<le> length (provider_log w) + 2"
    by auto
next
  assume two: "length (provider_log (snd (handler e req w))) = length (provider_log w) + 2"
  from handler_log_cases [of e req w] two
  show "\<exists>text comps w1. initial_phase e req w = (Inr (text, comps), w1)
           \<and> \<not> (missingComponents
                   (fst (promise_all (resolve_initial e comps) requiredComponents w1)) = []
                 \<and> within_tolerance
                     (totalPrice_of (productResponse_of
                        (fst (promise_all (resolve_initial e comps) requiredComponents w1))))
                     (budget req))"
    by (elim disjE exE conjE) (simp, simp, blast)
next
  let ?r = "AdjustmentPrompt tot (budget req) missing
      (map (\<lambda>kp. (fst kp, name (snd kp), price (snd kp))) pr)"
  assume a: "fst (call_provider e ?r w') = Inr text2
      \<and> JSON_parse e text2 = Some adj \<and> Object_entries adj = Inr entries"
  let ?w2 = "(snd (call_provider e ?r w'))\<lparr>now := max (now (snd (call_provider e ?r w'))) q\<rparr>"
  let ?b = "promise_all (resolve_adjusted e) entries ?w2"
  from a have s: "adjusted_phase e req q missing pr tot w'
      = (Send text2 (merge_products pr (fst ?b)), snd ?b)"
    using adjusted_phase_sends [of e tot req missing pr w' text2 adj entries q] by blast
  have k: "map fst (fst ?b) = map fst entries" by (rule adjusted_batch_keys)
  have "provider_log (snd (adjusted_phase e req q missing pr tot w')) = provider_log w' @ [?r]"
    by (rule adjusted_phase_log)
  with s have "provider_log (snd ?b) = provider_log w' @ [?r]" by simp
  with s k show "\<exists>fetched2 w3.
            adjusted_phase e req q missing pr tot w'
              = (Send text2 (merge_products pr fetched2), w3)
            \<and> map fst fetched2 = map fst entries
            \<and> provider_log w3 = provider_log w' @ [?r]"
    by blast
qed

theorem provider_invoked_at_most_twice_witness:
  "fst (handler (demo_env (ax_shop 62500) (demo_chat ''A'' ''B'') demo_parse)
          (demo_request 1000000) demo_world)
     = Send ''B'' (map (\<lambda>k. (k, demo_listing ''item'' 62500)) requiredComponents)
   \<and> \<not> within_tolerance
         (totalPrice_of (map (\<lambda>k. (k, demo_listing ''item'' 62500)) requiredComponents)) 1000000
   \<and> (\<exists>text comps w1.
         initial_phase (demo_env (ax_shop 62500) (demo_chat ''A'' ''B'') demo_parse)
           (demo_request 1000000) demo_world = (Inr (text, comps), w1)
         \<and> \<not> (missingComponents
                 (fst (promise_all
                    (resolve_initial (demo_env (ax_shop 62500) (demo_chat ''A'' ''B'') demo_parse)
                       comps) requiredComponents w1)) = []
               \<and> within_tolerance
                   (totalPrice_of (productResponse_of
                      (fst (promise_all
                         (resolve_initial
                            (demo_env (ax_shop 62500) (demo_chat ''A'' ''B'') demo_parse) comps)
                         requiredComponents w1))))
                   (budget (demo_request 1000000))))
   \<and> (\<exists>fetched2 w3.
         adjusted_phase (demo_env (ax_shop 62500) (demo_chat ''A'' ''B'') demo_parse)
           (demo_request 1000000) 5800 [''GPU''] [] 0 demo_world
           = (Send ''B'' (merge_products [] fetched2), w3)
         \<and> map fst fetched2 = [''GPU'', ''RAM'']
         \<and> provider_log w3 = [AdjustmentPrompt 0 1000000 [''GPU''] []])"
proof -
  let ?e = "demo_env (ax_shop 62500) (demo_chat ''A'' ''B'') demo_parse"
  let ?r = "demo_request 1000000"
  note T = provider_invoked_at_most_twice [where e = ?e and req = ?r and w = demo_world
      and tot = 0 and missing = "[''GPU'']" and pr = "[]" and w' = demo_world and ?text2.0 = "''B''"
      and adj = "Obj [(''GPU'', Str ''gpu2''), (''RAM'', Num 16)]"
      and entries = "[(''GPU'', Str ''gpu2''), (''RAM'', Num 16)]" and q = 5800]
  note T3 = T [THEN conjunct2, THEN conjunct2, THEN conjunct1, rule_format]
  note T4 = T [THEN conjunct2, THEN conjunct2, THEN conjunct2, rule_format]
  from run_still_off_budget obtain w where
    h: "handler ?e ?r demo_world
        = (Send ''B'' (map (\<lambda>k. (k, demo_listing ''item'' 62500)) requiredComponents), w)"
    and l: "length (provider_log w) = 2"
    by blast
  from h have a: "fst (handler ?e ?r demo_world)
      = Send ''B'' (map (\<lambda>k. (k, demo_listing ''item'' 62500)) requiredComponents)"
    by simp
  have b: "\<not> within_tolerance
      (totalPrice_of (map (\<lambda>k. (k, demo_listing ''item'' 62500)) requiredComponents)) 1000000"
    by (simp add: within_tolerance_runs totalPrice_of_def requiredComponents_def demo_listing_def)
  from h l have "length (provider_log (snd (handler ?e ?r demo_world)))
      = length (provider_log demo_world) + 2"
    by (simp add: demo_world_def)
  then have c: "\<exists>text comps w1. initial_phase ?e ?r demo_world = (Inr (text, comps), w1)
      \<and> \<not> (missingComponents
              (fst (promise_all (resolve_initial ?e comps) requiredComponents w1)) = []
            \<and> within_tolerance
                (totalPrice_of (productResponse_of
                   (fst (promise_all (resolve_initial ?e comps) requiredComponents w1))))
                (budget ?r))"
    by (rule T3)
  have "fst (call_provider ?e
          (AdjustmentPrompt 0 (budget ?r) [''GPU'']
             (map (\<lambda>kp. (fst kp, name (snd kp), price (snd kp))) ([] :: (string \<times> listing) list))) demo_world) = Inr ''B''
      \<and> JSON_parse ?e ''B'' = Some (Obj [(''GPU'', Str ''gpu2''), (''RAM'', Num 16)])
      \<and> Object_entries (Obj [(''GPU'', Str ''gpu2''), (''RAM'', Num 16)])
          = Inr [(''GPU'', Str ''gpu2''), (''RAM'', Num 16)]"
    by (simp add: call_provider_def demo_env_def demo_chat_def demo_parse_def Object_entries_def)
  then have "\<exists>fetched2 w3.
      adjusted_phase ?e ?r 5800 [''GPU''] [] 0 demo_world
        = (Send ''B'' (merge_products [] fetched2), w3)
      \<and> map fst fetched2 = map fst [(''GPU'', Str ''gpu2''), (''RAM'', Num 16 :: jsval)]
      \<and> provider_log w3
          = provider_log demo_world
            @ [AdjustmentPrompt 0 (budget ?r) [''GPU'']
                 (map (\<lambda>kp. (fst kp, name (snd kp), price (snd kp))) ([] :: (string \<times> listing) list))]"
    by (rule T4)
  then have d: "\<exists>fetched2 w3.
      adjusted_phase ?e ?r 5800 [''GPU''] [] 0 demo_world
        = (Send ''B'' (merge_products [] fetched2), w3)
      \<and> map fst fetched2 = [''GPU'', ''RAM'']
      \<and> provider_log w3 = [AdjustmentPrompt 0 1000000 [''GPU''] []]"
    by (simp add: demo_world_def demo_request_def)
  from a b c d show ?thesis by blast
qed

section \<open>Errors of a lookup\<close>









section \<open>Failures of the generation\<close>

lemma initial_phase_parse_failure:
  assumes "fst (call_provider e (InitialPrompt (prompt req) (budget req)) w) = Inr rtext"
    and "JSON_parse e rtext = None"
  shows "fst (initial_phase e req w) = Inl ParseFailure"
  using assms
  by (cases "call_provider e (InitialPrompt (prompt req) (budget req)) w")
    (simp add: initial_phase_def)

lemma initial_phase_no_keys:
  assumes "fst (call_provider e (InitialPrompt (prompt req) (budget req)) w) = Inr rtext"
    and "JSON_parse e rtext = Some comps" and "Object_keys comps = Inl err"
  shows "fst (initial_phase e req w) = Inl err"
  using assms
  by (cases "call_provider e (InitialPrompt (prompt req) (budget req)) w")
    (simp add: initial_phase_def)

lemma initial_phase_checks_keys:
  assumes "fst (call_provider e (InitialPrompt (prompt req) (budget req)) w) = Inr rtext"
    and "JSON_parse e rtext = Some comps" and "Object_keys comps = Inr ks"
  shows "fst (initial_phase e req w)
    = (if set requiredComponents \<subseteq> set ks then Inr (rtext, comps) else Inl MissingComponents)"
  using assms
  by (cases "call_provider e (InitialPrompt (prompt req) (budget req)) w")
    (auto simp: initial_phase_def list_all_iff)

lemma handler_initial_error:
  assumes "fst (initial_phase e req w) = Inl err"
  shows "fst (handler e req w) = InternalServerError
    \<and> provider_log (snd (handler e req w))
        = provider_log w @ [InitialPrompt (prompt req) (budget req)]"
proof -
  obtain w1 where i: "initial_phase e req w = (Inl err, w1)"
    using assms by (cases "initial_phase e req w") simp
  with initial_phase_log [of e req w] handler_initial_fail [OF i] show ?thesis by simp
qed

lemma handler_adjusted_parse_failure:
  assumes i: "initial_phase e req w = (Inr (rtext, comps), w1)"
    and n: "\<not> (missingComponents (fst (promise_all (resolve_initial e comps) requiredComponents w1)) = []
          \<and> within_tolerance
              (totalPrice_of (productResponse_of
                 (fst (promise_all (resolve_initial e comps) requiredComponents w1))))
              (budget req))"
    and a: "fst (call_provider e
        (AdjustmentPrompt
           (totalPrice_of (productResponse_of
              (fst (promise_all (resolve_initial e comps) requiredComponents w1))))
           (budget req)
           (missingComponents (fst (promise_all (resolve_initial e comps) requiredComponents w1)))
           (map (\<lambda>kp. (fst kp, name (snd kp), price (snd kp)))
              (productResponse_of
                 (fst (promise_all (resolve_initial e comps) requiredComponents w1)))))
        (snd (promise_all (resolve_initial e comps) requiredComponents w1))) = Inr text2"
    and p: "JSON_parse e text2 = None"
  shows "fst (handler e req w) = InternalServerError
    \<and> provider_log (snd (handler e req w))
        = provider_log w
          @ [InitialPrompt (prompt req) (budget req),
             AdjustmentPrompt
               (totalPrice_of (productResponse_of
                  (fst (promise_all (resolve_initial e comps) requiredComponents w1))))
               (budget req)
               (missingComponents
                  (fst (promise_all (resolve_initial e comps) requiredComponents w1)))
               (map (\<lambda>kp. (fst kp, name (snd kp), price (snd kp)))
                  (productResponse_of
                     (fst (promise_all (resolve_initial e comps) requiredComponents w1))))]"
proof -
  let ?b = "promise_all (resolve_initial e comps) requiredComponents w1"
  let ?r = "AdjustmentPrompt (totalPrice_of (productResponse_of (fst ?b))) (budget req)
      (missingComponents (fst ?b))
      (map (\<lambda>kp. (fst kp, name (snd kp), price (snd kp))) (productResponse_of (fst ?b)))"
  have b: "?b = (fst ?b, snd ?b)" by simp
  note h = handler_adjust [OF i b n]
  obtain r0 w0 where c: "call_provider e ?r (snd ?b) = (r0, w0)"
    by (cases "call_provider e ?r (snd ?b)")
  with a have r0: "r0 = Inr text2" by simp
  have "fst (adjusted_phase e req (now w1 + 5000) (missingComponents (fst ?b))
      (productResponse_of (fst ?b)) (totalPrice_of (productResponse_of (fst ?b))) (snd ?b))
      = InternalServerError"
    using c r0 p by (simp add: adjusted_phase_def)
  with h have reply: "fst (handler e req w) = InternalServerError" by simp
  have l1: "provider_log w1 = provider_log w @ [InitialPrompt (prompt req) (budget req)]"
    using initial_phase_log [of e req w] i by simp
  have l2: "provider_log (snd ?b) = provider_log w1" by (rule initial_batch_provider_log)
  from h l1 l2 have "provider_log (snd (handler e req w))
      = provider_log w @ [InitialPrompt (prompt req) (budget req), ?r]"
    by (simp add: adjusted_phase_log)
  with reply show ?thesis by blast
qed

text \<open>
  Claim C8, as amended. When the INITIAL text does not parse, or parses to a value without
  keys or to one that lacks any of the eight required keys, the handler answers the
  internal error after its single provider invocation; when the ADJUSTED text does not
  parse it answers the internal error after the two invocations, each made once. The
  check of the INITIAL specification is that the eight keys are among its keys: a
  specification that has them passes whatever other keys it has.
\<close>

theorem generation_failure_is_internal_error:
  "(fst (call_provider e (InitialPrompt (prompt req) (budget req)) w) = Inr rtext
      \<and> JSON_parse e rtext = None \<longrightarrow>
    fst (handler e req w) = InternalServerError
    \<and> provider_log (snd (handler e req w))
        = provider_log w @ [InitialPrompt (prompt req) (budget req)])
   \<and> (fst (call_provider e (InitialPrompt (prompt req) (budget req)) w) = Inr rtext
      \<and> JSON_parse e rtext = Some comps
      \<and> (Object_keys comps = Inl err
          \<or> Object_keys comps = Inr ks \<and> (\<exists>k. k \<in> set requiredComponents \<and> k \<notin> set ks)) \<longrightarrow>
    fst (handler e req w) = InternalServerError
    \<and> provider_log (snd (handler e req w))
        = provider_log w @ [InitialPrompt (prompt req) (budget req)])
   \<and> (fst (call_provider e (InitialPrompt (prompt req) (budget req)) w) = Inr rtext
      \<and> JSON_parse e rtext = Some comps \<and> Object_keys comps = Inr ks
      \<and> set requiredComponents \<subseteq> set ks \<longrightarrow>
    fst (initial_phase e req w) = Inr (rtext, comps))
   \<and> (initial_phase e req w = (Inr (rtext, comps), w1)
      \<and> \<not> (missingComponents
              (fst (promise_all (resolve_initial e comps) requiredComponents w1)) = []
            \<and> within_tolerance
                (totalPrice_of (productResponse_of
                   (fst (promise_all (resolve_initial e comps) requiredComponents w1))))
                (budget req))
      \<and> fst (call_provider e
           (AdjustmentPrompt
              (totalPrice_of (productResponse_of
                 (fst (promise_all (resolve_initial e comps) requiredComponents w1))))
              (budget req)
              (missingComponents
                 (fst (promise_all (resolve_initial e comps) requiredComponents w1)))
              (map (\<lambda>kp. (fst kp, name (snd kp), price (snd kp)))
                 (productResponse_of
                    (fst (promise_all (resolve_initial e comps) requiredComponents w1)))))
           (snd (promise_all (resolve_initial e comps) requiredComponents w1))) = Inr text2
      \<and> JSON_parse e text2 = None \<longrightarrow>
    fst (handler e req w) = InternalServerError
    \<and> provider_log (snd (handler e req w))
        = provider_log w
          @ [InitialPrompt (prompt req) (budget req),
             AdjustmentPrompt
               (totalPrice_of (productResponse_of
                  (fst (promise_all (resolve_initial e comps) requiredComponents w1))))
               (budget req)
               (missingComponents
                  (fst (promise_all (resolve_initial e comps) requiredComponents w1)))
               (map (\<lambda>kp. (fst kp, name (snd kp), price (snd kp)))
                  (productResponse_of
                     (fst (promise_all (resolve_initial e comps) requiredComponents w1))))])"
proof -
  have A: "fst (call_provider e (InitialPrompt (prompt req) (budget req)) w) = Inr rtext
      \<and> JSON_parse e rtext = None \<longrightarrow>
    fst (handler e req w) = InternalServerError
    \<and> provider_log (snd (handler e req w))
        = provider_log w @ [InitialPrompt (prompt req) (budget req)]"
    using initial_phase_parse_failure [of e req w rtext]
      handler_initial_error [of e req w ParseFailure]
    by blast
  have B: "fst (call_provider e (InitialPrompt (prompt req) (budget req)) w) = Inr rtext
      \<and> JSON_parse e rtext = Some comps
      \<and> (Object_keys comps = Inl err
          \<or> Object_keys comps = Inr ks \<and> (\<exists>k. k \<in> set requiredComponents \<and> k \<notin> set ks)) \<longrightarrow>
    fst (handler e req w) = InternalServerError
    \<and> provider_log (snd (handler e req w))
        = provider_log w @ [InitialPrompt (prompt req) (budget req)]"
  proof (rule impI)
    assume h: "fst (call_provider e (InitialPrompt (prompt req) (budget req)) w) = Inr rtext
      \<and> JSON_parse e rtext = Some comps
      \<and> (Object_keys comps = Inl err
          \<or> Object_keys comps = Inr ks \<and> (\<exists>k. k \<in> set requiredComponents \<and> k \<notin> set ks))"
    then have "\<exists>err'. fst (initial_phase e req w) = Inl err'"
    proof (elim conjE disjE)
      assume "fst (call_provider e (InitialPrompt (prompt req) (budget req)) w) = Inr rtext"
        "JSON_parse e rtext = Some comps" "Object_keys comps = Inl err"
      then show ?thesis using initial_phase_no_keys [of e req w rtext comps err] by blast
    next
      assume c: "fst (call_provider e (InitialPrompt (prompt req) (budget req)) w) = Inr rtext"
        "JSON_parse e rtext = Some comps" "Object_keys comps = Inr ks"
        and "\<exists>k. k \<in> set requiredComponents \<and> k \<notin> set ks"
      then have "\<not> set requiredComponents \<subseteq> set ks" by blast
      with initial_phase_checks_keys [OF c] show ?thesis by simp
    qed
    then obtain err' where "fst (initial_phase e req w) = Inl err'" ..
    then show "fst (handler e req w) = InternalServerError
      \<and> provider_log (snd (handler e req w))
          = provider_log w @ [InitialPrompt (prompt req) (budget req)]"
      by (rule handler_initial_error)
  qed
  have C: "fst (call_provider e (InitialPrompt (prompt req) (budget req)) w) = Inr rtext
      \<and> JSON_parse e rtext = Some comps \<and> Object_keys comps = Inr ks
      \<and> set requiredComponents \<subseteq> set ks \<longrightarrow>
    fst (initial_phase e req w) = Inr (rtext, comps)"
    using initial_phase_checks_keys [of e req w rtext comps ks] by simp
  note D = handler_adjusted_parse_failure [of e req w rtext comps w1 text2]
  show ?thesis
    by (rule conjI [OF A conjI [OF B conjI [OF C]]]) (use D in blast)
qed

text \<open>
  The claim as it was stated asks for the internal error whenever the keys of the INITIAL
  specification are not exactly the eight. A specification with the eight keys and a ninth
  (\<open>SSD\<close>) is resolved and answered like any other.
\<close>

theorem inexact_keys_fail_counterexample:
  "\<not> (\<forall>e req w rtext comps ks.
        fst (call_provider e (InitialPrompt (prompt req) (budget req)) w) = Inr rtext
        \<and> JSON_parse e rtext = Some comps \<and> Object_keys comps = Inr ks
        \<and> set ks \<noteq> set requiredComponents
        \<longrightarrow> fst (handler e req w) = InternalServerError)"
proof
  let ?e = "demo_env (ax_shop 62500) (demo_chat ''C'' ''B'') demo_parse"
  let ?ks = "[''CPU'', ''GPU'', ''Motherboard'', ''RAM'', ''PSU'', ''CPU Cooler'', ''FAN'',
      ''PC case'', ''SSD'']"
  assume all: "\<forall>e req w rtext comps ks.
        fst (call_provider e (InitialPrompt (prompt req) (budget req)) w) = Inr rtext
        \<and> JSON_parse e rtext = Some comps \<and> Object_keys comps = Inr ks
        \<and> set ks \<noteq> set requiredComponents
        \<longrightarrow> fst (handler e req w) = InternalServerError"
  have "fst (call_provider ?e
          (InitialPrompt (prompt (demo_request 500000)) (budget (demo_request 500000)))
          demo_world) = Inr ''C''"
    by (simp add: call_provider_def demo_env_def demo_chat_def)
  moreover have "JSON_parse ?e ''C'' = Some demo_components_extra"
    by (simp add: demo_env_def demo_parse_def)
  moreover have "Object_keys demo_components_extra = Inr ?ks"
    by (simp add: Object_keys_def Object_entries_def demo_components_extra_def)
  moreover have "set ?ks \<noteq> set requiredComponents"
  proof
    assume "set ?ks = set requiredComponents"
    moreover have "''SSD'' \<in> set ?ks" by simp
    ultimately have "''SSD'' \<in> set requiredComponents" by blast
    then show False by (simp add: requiredComponents_def)
  qed
  ultimately have "fst (handler ?e (demo_request 500000) demo_world) = InternalServerError"
    using all by blast
  with run_extra_key show False by auto
qed

theorem generation_failure_is_internal_error_witness:
  "fst (handler (demo_env (ax_shop 62500) (demo_chat ''X'' ''B'') demo_parse)
          (demo_request 500000) demo_world) = InternalServerError
   \<and> provider_log (snd (handler (demo_env (ax_shop 62500) (demo_chat ''X'' ''B'') demo_parse)
          (demo_request 500000) demo_world)) = [InitialPrompt ''gaming pc'' 500000]
   \<and> fst (handler (demo_env (ax_shop 62500) (demo_chat ''B'' ''B'') demo_parse)
          (demo_request 500000) demo_world) = InternalServerError
   \<and> fst (initial_phase (demo_env (ax_shop 62500) (demo_chat ''C'' ''B'') demo_parse)
          (demo_request 500000) demo_world) = Inr (''C'', demo_components_extra)
   \<and> fst (handler (demo_env (ax_no_gpu 62500) (demo_chat ''A'' ''X'') demo_parse)
          (demo_request 500000) demo_world) = InternalServerError
   \<and> length (provider_log (snd (handler (demo_env (ax_no_gpu 62500) (demo_chat ''A'' ''X'') demo_parse)
          (demo_request 500000) demo_world))) = 2"
proof -
  let ?r = "demo_request 500000"
  let ?ip = "InitialPrompt (prompt ?r) (budget ?r)"
  let ?ex = "demo_env (ax_shop 62500) (demo_chat ''X'' ''B'') demo_parse"
  let ?eb = "demo_env (ax_shop 62500) (demo_chat ''B'' ''B'') demo_parse"
  let ?ec = "demo_env (ax_shop 62500) (demo_chat ''C'' ''B'') demo_parse"
  let ?ea = "demo_env (ax_no_gpu 62500) (demo_chat ''A'' ''X'') demo_parse"
  let ?w1 = "demo_world\<lparr>now := 800, provider_log := [InitialPrompt ''gaming pc'' 500000]\<rparr>"
  note ev = call_provider_def demo_env_def demo_chat_def demo_parse_def
  have "fst (call_provider ?ex ?ip demo_world) = Inr ''X'' \<and> JSON_parse ?ex ''X'' = None"
    by (simp add: ev)
  then have a: "fst (handler ?ex ?r demo_world) = InternalServerError
      \<and> provider_log (snd (handler ?ex ?r demo_world)) = provider_log demo_world @ [?ip]"
    by (rule generation_failure_is_internal_error [THEN conjunct1, rule_format])
  have "fst (call_provider ?eb ?ip demo_world) = Inr ''B''
      \<and> JSON_parse ?eb ''B'' = Some (Obj [(''GPU'', Str ''gpu2''), (''RAM'', Num 16)])
      \<and> (Object_keys (Obj [(''GPU'', Str ''gpu2''), (''RAM'', Num 16)]) = Inl TypeError
          \<or> Object_keys (Obj [(''GPU'', Str ''gpu2''), (''RAM'', Num 16)]) = Inr [''GPU'', ''RAM'']
            \<and> (\<exists>k. k \<in> set requiredComponents \<and> k \<notin> set [''GPU'', ''RAM'']))"
  proof (intro conjI disjI2 exI [of _ "''CPU''"])
    show "fst (call_provider ?eb ?ip demo_world) = Inr ''B''" by (simp add: ev)
    show "JSON_parse ?eb ''B'' = Some (Obj [(''GPU'', Str ''gpu2''), (''RAM'', Num 16)])"
      by (simp add: ev)
    show "Object_keys (Obj [(''GPU'', Str ''gpu2''), (''RAM'', Num 16)]) = Inr [''GPU'', ''RAM'']"
      by (simp add: Object_keys_def Object_entries_def)
    show "''CPU'' \<in> set requiredComponents" by (simp add: requiredComponents_def)
    show "''CPU'' \<notin> set [''GPU'', ''RAM'']" by simp
  qed
  then have b: "fst (handler ?eb ?r demo_world) = InternalServerError
      \<and> provider_log (snd (handler ?eb ?r demo_world)) = provider_log demo_world @ [?ip]"
    by (rule generation_failure_is_internal_error [THEN conjunct2, THEN conjunct1, rule_format])
  have "fst (call_provider ?ec ?ip demo_world) = Inr ''C''
      \<and> JSON_parse ?ec ''C'' = Some demo_components_extra
      \<and> Object_keys demo_components_extra
          = Inr [''CPU'', ''GPU'', ''Motherboard'', ''RAM'', ''PSU'', ''CPU Cooler'', ''FAN'',
                 ''PC case'', ''SSD'']
      \<and> set requiredComponents
          \<subseteq> set [''CPU'', ''GPU'', ''Motherboard'', ''RAM'', ''PSU'', ''CPU Cooler'', ''FAN'',
                 ''PC case'', ''SSD'']"
  proof (intro conjI)
    show "fst (call_provider ?ec ?ip demo_world) = Inr ''C''" by (simp add: ev)
    show "JSON_parse ?ec ''C'' = Some demo_components_extra" by (simp add: ev)
    show "Object_keys demo_components_extra
        = Inr [''CPU'', ''GPU'', ''Motherboard'', ''RAM'', ''PSU'', ''CPU Cooler'', ''FAN'',
               ''PC case'', ''SSD'']"
      by (simp add: Object_keys_def Object_entries_def demo_components_extra_def)
    show "set requiredComponents
        \<subseteq> set [''CPU'', ''GPU'', ''Motherboard'', ''RAM'', ''PSU'', ''CPU Cooler'', ''FAN'',
               ''PC case'', ''SSD'']"
      by (simp add: requiredComponents_def)
  qed
  then have c: "fst (initial_phase ?ec ?r demo_world) = Inr (''C'', demo_components_extra)"
    by (rule generation_failure_is_internal_error
          [THEN conjunct2, THEN conjunct2, THEN conjunct1, rule_format])
  let ?b = "promise_all (resolve_initial ?ea demo_components) requiredComponents ?w1"
  let ?adj = "AdjustmentPrompt (totalPrice_of (productResponse_of (fst ?b))) (budget ?r)
      (missingComponents (fst ?b))
      (map (\<lambda>kp. (fst kp, name (snd kp), price (snd kp))) (productResponse_of (fst ?b)))"
  have miss: "missingComponents (fst ?b) \<noteq> []"
    unfolding run_batch_no_gpu by (simp add: missingComponents_def)
  have call: "fst (call_provider ?ea ?adj (snd ?b)) = Inr ''X''"
    by (simp add: call_provider_def demo_env_def demo_chat_def)
  have parse: "JSON_parse ?ea ''X'' = None" by (simp add: demo_env_def demo_parse_def)
  from miss call parse run_initial [of "ax_no_gpu 62500" "''X''" 500000]
  have "initial_phase ?ea ?r demo_world = (Inr (''A'', demo_components), ?w1)
      \<and> \<not> (missingComponents (fst ?b) = []
            \<and> within_tolerance (totalPrice_of (productResponse_of (fst ?b))) (budget ?r))
      \<and> fst (call_provider ?ea ?adj (snd ?b)) = Inr ''X''
      \<and> JSON_parse ?ea ''X'' = None"
    by blast
  then have d: "fst (handler ?ea ?r demo_world) = InternalServerError
      \<and> provider_log (snd (handler ?ea ?r demo_world)) = provider_log demo_world @ [?ip, ?adj]"
    by (rule generation_failure_is_internal_error
          [THEN conjunct2, THEN conjunct2, THEN conjunct2, rule_format])
  from a have a': "fst (handler ?ex ?r demo_world) = InternalServerError"
    and a'': "provider_log (snd (handler ?ex ?r demo_world)) = [InitialPrompt ''gaming pc'' 500000]"
    by (simp_all add: demo_world_def demo_request_def)
  from d have d': "fst (handler ?ea ?r demo_world) = InternalServerError"
    and d'': "length (provider_log (snd (handler ?ea ?r demo_world))) = 2"
    by (simp_all add: demo_world_def)
  from a' a'' b c d' d'' show ?thesis by blast
qed

section \<open>The adjusted batch and its merge\<close>



text \<open>
  Claim C10. For a key that no answer of the adjusted batch resolved, the merged mapping
  has what the mapping had before; this is so for a key all of whose entries have a value
  that is not a string, and for a key that has no entry; and a key that had a listing
  before the merge has one after it.
\<close>

theorem merge_leaves_unresolved_keys:
  "((\<forall>p'. (k, Some p') \<notin> set fetched) \<longrightarrow>
      map_of (merge_products pr fetched) k = map_of pr k)
   \<and> ((\<forall>v. (k, v) \<in> set entries \<longrightarrow> \<not> (\<exists>s. v = Str s)) \<longrightarrow>
      map_of (merge_products pr (fst (promise_all (resolve_adjusted e) entries w))) k
        = map_of pr k)
   \<and> (k \<notin> fst ` set entries \<longrightarrow>
      map_of (merge_products pr (fst (promise_all (resolve_adjusted e) entries w))) k
        = map_of pr k)
   \<and> (map_of pr k = Some p \<longrightarrow> (\<exists>p'. map_of (merge_products pr fetched) k = Some p'))"
proof (intro conjI impI)
  assume "\<forall>p'. (k, Some p') \<notin> set fetched"
  then show "map_of (merge_products pr fetched) k = map_of pr k"
    using merge_products_untouched [of k fetched pr] by blast
next
  assume a: "\<forall>v. (k, v) \<in> set entries \<longrightarrow> \<not> (\<exists>s. v = Str s)"
  have "(k, Some p') \<notin> set (fst (promise_all (resolve_adjusted e) entries w))" for p'
    using adjusted_batch_resolved_is_string [of k p' e entries w] a by blast
  then show "map_of (merge_products pr (fst (promise_all (resolve_adjusted e) entries w))) k
      = map_of pr k"
    by (rule merge_products_untouched)
next
  assume a: "k \<notin> fst ` set entries"
  have "(k, Some p') \<notin> set (fst (promise_all (resolve_adjusted e) entries w))" for p'
  proof
    assume "(k, Some p') \<in> set (fst (promise_all (resolve_adjusted e) entries w))"
    then have "k \<in> set (map fst (fst (promise_all (resolve_adjusted e) entries w)))"
      by (metis fst_conv image_eqI list.set_map)
    with a show False by (simp add: adjusted_batch_keys)
  qed
  then show "map_of (merge_products pr (fst (promise_all (resolve_adjusted e) entries w))) k
      = map_of pr k"
    by (rule merge_products_untouched)
next
  assume "map_of pr k = Some p"
  then show "\<exists>p'. map_of (merge_products pr fetched) k = Some p'"
    by (rule merge_products_keeps)
qed


theorem merge_leaves_unresolved_keys_witness:
  "map_of (merge_products demo_seven
      [(''GPU'', Some (demo_listing ''item'' 62500)), (''RAM'', None)]) ''RAM''
     = Some (demo_listing ''item'' 62500)
   \<and> map_of (merge_products demo_seven
        (fst (promise_all (resolve_adjusted (demo_env (ax_shop 1) no_chat Map.empty))
           demo_adjusted_entries demo_world))) ''RAM''
     = Some (demo_listing ''item'' 62500)
   \<and> map_of (merge_products demo_seven
        (fst (promise_all (resolve_adjusted (demo_env (ax_shop 1) no_chat Map.empty))
           demo_adjusted_entries demo_world))) ''CPU''
     = Some (demo_listing ''item'' 62500)
   \<and> (\<exists>p'. map_of (merge_products demo_seven [(''CPU'', Some (demo_listing ''other'' 70000))])
              ''CPU'' = Some p')"
proof -
  let ?e = "demo_env (ax_shop 1) no_chat Map.empty"
  let ?item = "demo_listing ''item'' 62500"
  let ?f = "[(''GPU'', Some ?item), (''RAM'', None)]"
  have ram0: "map_of demo_seven ''RAM'' = Some ?item"
    and cpu0: "map_of demo_seven ''CPU'' = Some ?item"
    by (simp_all add: demo_seven_def)
  have "\<forall>p'. (''RAM'', Some p') \<notin> set ?f" by simp
  then have "map_of (merge_products demo_seven ?f) ''RAM'' = map_of demo_seven ''RAM''"
    by (rule merge_leaves_unresolved_keys [where k = "''RAM''", THEN conjunct1, THEN mp])
  with ram0 have a: "map_of (merge_products demo_seven ?f) ''RAM'' = Some ?item" by simp
  have "\<forall>v. (''RAM'', v) \<in> set demo_adjusted_entries \<longrightarrow> \<not> (\<exists>s. v = Str s)"
    by (simp add: demo_adjusted_entries_def)
  then have "map_of (merge_products demo_seven
        (fst (promise_all (resolve_adjusted ?e) demo_adjusted_entries demo_world))) ''RAM''
      = map_of demo_seven ''RAM''"
    by (rule merge_leaves_unresolved_keys [where k = "''RAM''" and p = ?item,
          THEN conjunct2, THEN conjunct1, THEN mp])
  with ram0 have b: "map_of (merge_products demo_seven
        (fst (promise_all (resolve_adjusted ?e) demo_adjusted_entries demo_world))) ''RAM''
      = Some ?item"
    by simp
  have "''CPU'' \<notin> fst ` set demo_adjusted_entries"
    by (simp add: demo_adjusted_entries_def)
  then have "map_of (merge_products demo_seven
        (fst (promise_all (resolve_adjusted ?e) demo_adjusted_entries demo_world))) ''CPU''
      = map_of demo_seven ''CPU''"
    by (rule merge_leaves_unresolved_keys [where k = "''CPU''" and p = ?item,
          THEN conjunct2, THEN conjunct2, THEN conjunct1, rule_format])
  with cpu0 have c: "map_of (merge_products demo_seven
        (fst (promise_all (resolve_adjusted ?e) demo_adjusted_entries demo_world))) ''CPU''
      = Some ?item"
    by simp
  from cpu0 have d: "\<exists>p'. map_of (merge_products demo_seven
      [(''CPU'', Some (demo_listing ''other'' 70000))]) ''CPU'' = Some p'"
    by (rule merge_leaves_unresolved_keys [where k = "''CPU''",
          THEN conjunct2, THEN conjunct2, THEN conjunct2, rule_format])
  from a b c d show ?thesis by blast
qed

section \<open>The cache\<close>

lemma cache_get_set_same:
  "fst (cache_get (cache_set c k v t0) k t) = (if t0 + stdTTL * 1000 < t then None else Some v)"
  by (simp add: cache_get_def cache_set_def)

lemma cache_get_set_other:
  "k' \<noteq> k \<Longrightarrow> fst (cache_get (cache_set c k' v' t1) k t) = fst (cache_get c k t)"
  by (auto simp: cache_get_def cache_set_def split: option.splits)

lemma cache_get_after_get:
  "t1 \<le> t \<Longrightarrow> fst (cache_get (snd (cache_get c k' t1)) k t) = fst (cache_get c k t)"
  by (auto simp: cache_get_def split: option.splits)

lemma cache_get_shrinks:
  "snd (cache_get c k t) k' = Some y \<Longrightarrow> c k' = Some y"
  by (auto simp: cache_get_def split: option.splits if_splits)

lemma cache_get_hit_keeps:
  "fst (cache_get c k t) = Some v \<Longrightarrow> snd (cache_get c k t) = c"
  by (auto simp: cache_get_def split: option.splits if_splits)

lemma fetchProduct_try_cache:
  assumes "fetchProduct_try e key u w = (res, w')"
  shows "cache w' = cache w
    \<or> (\<exists>r ct cs v. fst (fetchWithRetry e u w) = Inr r \<and> content_type r = Some ct
          \<and> str_includes ct ''application/json'' \<and> cards r = Some cs \<and> map_cards cs = Inr v
          \<and> res = Inr v \<and> cache w' = cache_set (cache w) key v (now w'))"
proof -
  obtain r0 w0 where f: "fetchWithRetry e u w = (r0, w0)" by (cases "fetchWithRetry e u w")
  from fetchWithRetry_frame [OF f] have c: "cache w0 = cache w" by simp
  show ?thesis
  proof (cases r0)
    case (Inl err)
    with assms f c show ?thesis by (simp add: fetchProduct_try_def)
  next
    case (Inr r)
    show ?thesis
    proof (cases "content_type r")
      case None
      with assms f c Inr show ?thesis by (simp add: fetchProduct_try_def)
    next
      case (Some ct)
      show ?thesis
      proof (cases "str_includes ct ''application/json''")
        case False
        with assms f c Inr Some show ?thesis by (simp add: fetchProduct_try_def)
      next
        case json: True
        show ?thesis
        proof (cases "cards r")
          case None
          with assms f c Inr Some json show ?thesis by (simp add: fetchProduct_try_def)
        next
          case cs: (Some cs)
          show ?thesis
          proof (cases "map_cards cs")
            case (Inl err)
            with assms f c Inr Some json cs show ?thesis by (simp add: fetchProduct_try_def)
          next
            case v: (Inr v)
            from assms f Inr Some json cs v
            have "res = Inr v" "w' = w0\<lparr>cache := cache_set (cache w0) key v (now w0)\<rparr>"
              by (simp_all add: fetchProduct_try_def)
            with c f Inr Some json cs v show ?thesis by simp
          qed
        qed
      qed
    qed
  qed
qed

lemma fetchProduct_hit:
  assumes "fst (cache_get (cache w) (''product:'' @ toString e searchTerm)
             (max (now w) (limiter_ready w))) = Some v"
  shows "fst (fetchProduct e searchTerm w) = Inr v
    \<and> requests (snd (fetchProduct e searchTerm w)) = requests w
    \<and> sleeps (snd (fetchProduct e searchTerm w)) = sleeps w
    \<and> cache (snd (fetchProduct e searchTerm w)) = cache w"
  using assms cache_get_hit_keeps [OF assms]
  by (simp add: fetchProduct_def fetchProduct_body_def Let_def)

lemma fetchProduct_writes:
  assumes new: "cache (snd (fetchProduct e searchTerm w)) k' = Some (v, x)"
    and old: "cache w k' \<noteq> Some (v, x)"
  shows "k' = ''product:'' @ toString e searchTerm
    \<and> fst (fetchProduct e searchTerm w) = Inr v
    \<and> x = now (snd (fetchProduct e searchTerm w)) + stdTTL * 1000
    \<and> (\<exists>query r ct cs.
          encodeURIComponent e (toString e searchTerm) = Some query
          \<and> fst (fetchWithRetry e (search_url query)
                   (w\<lparr>now := max (now w) (limiter_ready w),
                      limiter_ready := max (now w) (limiter_ready w) + 5000,
                      cache := snd (cache_get (cache w) (''product:'' @ toString e searchTerm)
                                     (max (now w) (limiter_ready w)))\<rparr>)) = Inr r
          \<and> content_type r = Some ct \<and> str_includes ct ''application/json''
          \<and> cards r = Some cs \<and> map_cards cs = Inr v)"
proof -
  let ?start = "max (now w) (limiter_ready w)"
  let ?key = "''product:'' @ toString e searchTerm"
  let ?c1 = "snd (cache_get (cache w) ?key ?start)"
  let ?w1 = "w\<lparr>now := ?start, limiter_ready := ?start + 5000, cache := ?c1\<rparr>"
  have shrink: "?c1 k' \<noteq> Some (v, x)"
    using old cache_get_shrinks [of "cache w" ?key ?start k' "(v, x)"] by blast
  show ?thesis
  proof (cases "fst (cache_get (cache w) ?key ?start)")
    case (Some cached)
    with new shrink show ?thesis
      by (simp add: fetchProduct_def fetchProduct_body_def Let_def)
  next
    case None
    show ?thesis
    proof (cases "encodeURIComponent e (toString e searchTerm)")
      case N: None
      with None new shrink show ?thesis
        by (simp add: fetchProduct_def fetchProduct_body_def Let_def)
    next
      case (Some query)
      obtain res w2 where t: "fetchProduct_try e ?key (search_url query) ?w1 = (res, w2)"
        by (cases "fetchProduct_try e ?key (search_url query) ?w1")
      have fp: "fetchProduct e searchTerm w = (case res of Inl err \<Rightarrow> Inr [] | Inr ps \<Rightarrow> Inr ps, w2)"
        using None Some t
        by (simp add: fetchProduct_def fetchProduct_body_def Let_def split: sum.splits)
      from fetchProduct_try_cache [OF t] show ?thesis
      proof (elim disjE exE conjE)
        assume "cache w2 = cache ?w1"
        with fp new shrink show ?thesis by simp
      next
        fix r ct cs v'
        assume s: "fst (fetchWithRetry e (search_url query) ?w1) = Inr r"
          "content_type r = Some ct" "str_includes ct ''application/json''"
          "cards r = Some cs" "map_cards cs = Inr v'" "res = Inr v'"
          "cache w2 = cache_set (cache ?w1) ?key v' (now w2)"
        from new fp s(7) shrink have k: "k' = ?key"
          by (auto simp: cache_set_def split: if_splits)
        with new fp s(7) have vx: "v = v'" "x = now w2 + stdTTL * 1000"
          by (simp_all add: cache_set_def)
        from fp s(6) vx have "fst (fetchProduct e searchTerm w) = Inr v"
          "x = now (snd (fetchProduct e searchTerm w)) + stdTTL * 1000"
          by simp_all
        with k Some s vx show ?thesis by blast
      qed
    qed
  qed
qed

text \<open>
  Claim C9. The time to live is 3600000 ms. A \<open>get\<close> of a key at or before that long
  after its \<open>set\<close> answers the sequence that was set, and a later one answers nothing;
  a \<open>set\<close> of another key and an earlier \<open>get\<close> of any key do not change the answer.
  When the lookup at the start of \<open>fetchProduct\<close> hits, the cached sequence is returned
  with no request issued, no delay and the cache as it was. An entry that the cache holds
  after \<open>fetchProduct\<close> and did not hold before is the entry of this search term, holds
  what the call returned, expires \<open>stdTTL\<close> after the moment of the write, and comes
  from a response that \<open>fetchWithRetry\<close> returned with a JSON content type and cards that
  all project.
\<close>

theorem cache_hit_and_write:
  "stdTTL * 1000 = 3600000
   \<and> (t \<le> t0 + stdTTL * 1000 \<longrightarrow> fst (cache_get (cache_set c k v t0) k t) = Some v)
   \<and> (t0 + stdTTL * 1000 < t \<longrightarrow> fst (cache_get (cache_set c k v t0) k t) = None)
   \<and> (k' \<noteq> k \<longrightarrow> fst (cache_get (cache_set c k' v' t1) k t) = fst (cache_get c k t))
   \<and> (t1 \<le> t \<longrightarrow> fst (cache_get (snd (cache_get c k' t1)) k t) = fst (cache_get c k t))
   \<and> (fst (cache_get (cache w) (''product:'' @ toString e searchTerm)
              (max (now w) (limiter_ready w))) = Some v \<longrightarrow>
        fst (fetchProduct e searchTerm w) = Inr v
        \<and> requests (snd (fetchProduct e searchTerm w)) = requests w
        \<and> sleeps (snd (fetchProduct e searchTerm w)) = sleeps w
        \<and> cache (snd (fetchProduct e searchTerm w)) = cache w)
   \<and> (cache (snd (fetchProduct e searchTerm w)) k = Some (v, x) \<and> cache w k \<noteq> Some (v, x) \<longrightarrow>
        k = ''product:'' @ toString e searchTerm
        \<and> fst (fetchProduct e searchTerm w) = Inr v
        \<and> x = now (snd (fetchProduct e searchTerm w)) + stdTTL * 1000
        \<and> (\<exists>query r ct cs.
              encodeURIComponent e (toString e searchTerm) = Some query
              \<and> fst (fetchWithRetry e (search_url query)
                       (w\<lparr>now := max (now w) (limiter_ready w),
                          limiter_ready := max (now w) (limiter_ready w) + 5000,
                          cache := snd (cache_get (cache w) (''product:'' @ toString e searchTerm)
                                         (max (now w) (limiter_ready w)))\<rparr>)) = Inr r
              \<and> content_type r = Some ct \<and> str_includes ct ''application/json''
              \<and> cards r = Some cs \<and> map_cards cs = Inr v))"
proof (intro conjI impI)
  show "stdTTL * 1000 = 3600000" by (simp add: stdTTL_def)
  show "fst (cache_get (cache_set c k v t0) k t) = Some v" if "t \<le> t0 + stdTTL * 1000"
    using that by (simp add: cache_get_set_same)
  show "fst (cache_get (cache_set c k v t0) k t) = None" if "t0 + stdTTL * 1000 < t"
    using that by (simp add: cache_get_set_same)
  show "fst (cache_get (cache_set c k' v' t1) k t) = fst (cache_get c k t)" if "k' \<noteq> k"
    using that by (rule cache_get_set_other)
  show "fst (cache_get (snd (cache_get c k' t1)) k t) = fst (cache_get c k t)" if "t1 \<le> t"
    using that by (rule cache_get_after_get)
next
  assume h: "fst (cache_get (cache w) (''product:'' @ toString e searchTerm)
      (max (now w) (limiter_ready w))) = Some v"
  note r = fetchProduct_hit [OF h]
  from r show "fst (fetchProduct e searchTerm w) = Inr v" by blast
  from r show "requests (snd (fetchProduct e searchTerm w)) = requests w" by blast
  from r show "sleeps (snd (fetchProduct e searchTerm w)) = sleeps w" by blast
  from r show "cache (snd (fetchProduct e searchTerm w)) = cache w" by blast
next
  assume h: "cache (snd (fetchProduct e searchTerm w)) k = Some (v, x) \<and> cache w k \<noteq> Some (v, x)"
  then have r: "k = ''product:'' @ toString e searchTerm
    \<and> fst (fetchProduct e searchTerm w) = Inr v
    \<and> x = now (snd (fetchProduct e searchTerm w)) + stdTTL * 1000
    \<and> (\<exists>query r ct cs.
          encodeURIComponent e (toString e searchTerm) = Some query
          \<and> fst (fetchWithRetry e (search_url query)
                   (w\<lparr>now := max (now w) (limiter_ready w),
                      limiter_ready := max (now w) (limiter_ready w) + 5000,
                      cache := snd (cache_get (cache w) (''product:'' @ toString e searchTerm)
                                     (max (now w) (limiter_ready w)))\<rparr>)) = Inr r
          \<and> content_type r = Some ct \<and> str_includes ct ''application/json''
          \<and> cards r = Some cs \<and> map_cards cs = Inr v)"
    using fetchProduct_writes [of e searchTerm w k v x] by blast
  from r show "k = ''product:'' @ toString e searchTerm" by blast
  from r show "fst (fetchProduct e searchTerm w) = Inr v" by blast
  from r show "x = now (snd (fetchProduct e searchTerm w)) + stdTTL * 1000" by blast
  from r show "\<exists>query r ct cs.
          encodeURIComponent e (toString e searchTerm) = Some query
          \<and> fst (fetchWithRetry e (search_url query)
                   (w\<lparr>now := max (now w) (limiter_ready w),
                      limiter_ready := max (now w) (limiter_ready w) + 5000,
                      cache := snd (cache_get (cache w) (''product:'' @ toString e searchTerm)
                                     (max (now w) (limiter_ready w)))\<rparr>)) = Inr r
          \<and> content_type r = Some ct \<and> str_includes ct ''application/json''
          \<and> cards r = Some cs \<and> map_cards cs = Inr v"
    by blast
qed

theorem cache_hit_and_write_witness:
  "fst (cache_get (cache_set Map.empty ''product:cpu'' [demo_listing ''item'' 62500] 120)
          ''product:cpu'' 3600120) = Some [demo_listing ''item'' 62500]
   \<and> fst (cache_get (cache_set Map.empty ''product:cpu'' [demo_listing ''item'' 62500] 120)
          ''product:cpu'' 3600121) = None
   \<and> fst (fetchProduct (demo_env ax_always_throttled no_chat Map.empty) (Str ''cpu'')
            (demo_world\<lparr>now := 1000, requests := 1,
               cache := cache_set Map.empty ''product:cpu'' [demo_listing ''item'' 62500] 120,
               limiter_ready := 5000\<rparr>)) = Inr [demo_listing ''item'' 62500]
   \<and> requests (snd (fetchProduct (demo_env ax_always_throttled no_chat Map.empty) (Str ''cpu'')
            (demo_world\<lparr>now := 1000, requests := 1,
               cache := cache_set Map.empty ''product:cpu'' [demo_listing ''item'' 62500] 120,
               limiter_ready := 5000\<rparr>))) = 1
   \<and> fst (fetchProduct (demo_env (ax_shop 62500) no_chat Map.empty) (Str ''cpu'') demo_world)
       = Inr [demo_listing ''item'' 62500]
   \<and> (\<exists>query (r :: response) ct cs.
         encodeURIComponent (demo_env (ax_shop 62500) no_chat Map.empty) ''cpu'' = Some query
         \<and> content_type r = Some ct \<and> str_includes ct ''application/json''
         \<and> cards r = Some cs \<and> map_cards cs = Inr [demo_listing ''item'' 62500])"
proof -
  let ?l = "[demo_listing ''item'' 62500]"
  let ?eh = "demo_env ax_always_throttled no_chat Map.empty"
  let ?es = "demo_env (ax_shop 62500) no_chat Map.empty"
  let ?wh = "demo_world\<lparr>now := 1000, requests := 1,
      cache := cache_set Map.empty ''product:cpu'' ?l 120, limiter_ready := 5000\<rparr>"
  note T = cache_hit_and_write
  have ttl: "stdTTL * 1000 = 3600000" by (rule T [THEN conjunct1])
  have "(3600120 :: nat) \<le> 120 + stdTTL * 1000" by (simp add: stdTTL_def)
  then have a: "fst (cache_get (cache_set Map.empty ''product:cpu'' ?l 120) ''product:cpu'' 3600120)
      = Some ?l"
    by (rule T [THEN conjunct2, THEN conjunct1, rule_format])
  have "120 + stdTTL * 1000 < (3600121 :: nat)" by (simp add: stdTTL_def)
  then have b: "fst (cache_get (cache_set Map.empty ''product:cpu'' ?l 120) ''product:cpu'' 3600121)
      = None"
    by (rule T [THEN conjunct2, THEN conjunct2, THEN conjunct1, rule_format])
  have "fst (cache_get (cache ?wh) (''product:'' @ toString ?eh (Str ''cpu''))
      (max (now ?wh) (limiter_ready ?wh))) = Some ?l"
    by (simp add: demo_world_def toString_def cache_get_def cache_set_def stdTTL_def)
  then have c: "fst (fetchProduct ?eh (Str ''cpu'') ?wh) = Inr ?l
      \<and> requests (snd (fetchProduct ?eh (Str ''cpu'') ?wh)) = requests ?wh
      \<and> sleeps (snd (fetchProduct ?eh (Str ''cpu'') ?wh)) = sleeps ?wh
      \<and> cache (snd (fetchProduct ?eh (Str ''cpu'') ?wh)) = cache ?wh"
    by (rule T [THEN conjunct2, THEN conjunct2, THEN conjunct2, THEN conjunct2, THEN conjunct2,
          THEN conjunct1, rule_format])
  have "cache (snd (fetchProduct ?es (Str ''cpu'') demo_world)) ''product:cpu''
        = Some (?l, 3600120)
      \<and> cache demo_world ''product:cpu'' \<noteq> Some (?l, 3600120)"
    by (simp add: demo_defs run_defs)
  then have d: "''product:cpu'' = ''product:'' @ toString ?es (Str ''cpu'')
      \<and> fst (fetchProduct ?es (Str ''cpu'') demo_world) = Inr ?l
      \<and> 3600120 = now (snd (fetchProduct ?es (Str ''cpu'') demo_world)) + stdTTL * 1000
      \<and> (\<exists>query r ct cs.
            encodeURIComponent ?es (toString ?es (Str ''cpu'')) = Some query
            \<and> fst (fetchWithRetry ?es (search_url query)
                     (demo_world\<lparr>now := max (now demo_world) (limiter_ready demo_world),
                        limiter_ready := max (now demo_world) (limiter_ready demo_world) + 5000,
                        cache := snd (cache_get (cache demo_world)
                                       (''product:'' @ toString ?es (Str ''cpu''))
                                       (max (now demo_world) (limiter_ready demo_world)))\<rparr>))
                = Inr r
            \<and> content_type r = Some ct \<and> str_includes ct ''application/json''
            \<and> cards r = Some cs \<and> map_cards cs = Inr ?l)"
    by (rule T [THEN conjunct2, THEN conjunct2, THEN conjunct2, THEN conjunct2, THEN conjunct2,
          THEN conjunct2, rule_format])
  from d have d1: "fst (fetchProduct ?es (Str ''cpu'') demo_world) = Inr ?l" by blast
  from d have d2: "\<exists>query (r :: response) ct cs.
         encodeURIComponent ?es ''cpu'' = Some query
         \<and> content_type r = Some ct \<and> str_includes ct ''application/json''
         \<and> cards r = Some cs \<and> map_cards cs = Inr ?l"
    unfolding toString_def jsval.case by blast
  from c have c1: "fst (fetchProduct ?eh (Str ''cpu'') ?wh) = Inr ?l"
    and c2: "requests (snd (fetchProduct ?eh (Str ''cpu'') ?wh)) = 1"
    by (simp_all add: demo_world_def)
  from a b c1 c2 d1 d2 show ?thesis by blast
qed

end
